theory Spec2Isabelle
  imports Complex_Main "HOL-Library.Word"
begin

unbundle bit_operations_syntax

section \<open>The transposition table of tt.cpp\<close>

subsection \<open>Data model\<close>

text \<open>
  The header tt.h and the headers of the scalar types are not part of the sources at hand,
  so the entry is a record of the six things the constructor call
  \<^verbatim>\<open>TTEntry(posKey, v, t, d, m, generation)\<close> hands over and the accessors
  \<^verbatim>\<open>key()\<close>, \<^verbatim>\<open>depth()\<close>, \<^verbatim>\<open>move()\<close>, \<^verbatim>\<open>generation()\<close> read back.
  \<^verbatim>\<open>unsigned\<close> is 32 bits wide and \<^verbatim>\<open>size_t\<close> 64 bits (the LP64 data model).
\<close>

type_synonym Key = "64 word"
type_synonym Value = int
type_synonym Depth = int
type_synonym Move = int

datatype ValueType =
  VALUE_TYPE_NONE | VALUE_TYPE_UPPER | VALUE_TYPE_LOWER | VALUE_TYPE_EXACT | VALUE_TYPE_EVAL

text \<open>
  Modelled from the spec: the class TTEntry is declared in tt.h, which is missing. An entry
  holds a 64-bit signature, a signed value, a bound type, a signed depth, a move token and
  an 8-bit generation tag.
\<close>

record TTEntry =
  key :: Key
  val :: Value
  vtype :: ValueType
  depth :: Depth
  move :: Move
  gen :: "8 word"

text \<open>
  Modelled from the spec: the constructor of TTEntry (tt.h, missing) stores its six
  arguments.
\<close>

definition TTEntry_new :: "Key \<Rightarrow> Value \<Rightarrow> ValueType \<Rightarrow> Depth \<Rightarrow> Move \<Rightarrow> 8 word \<Rightarrow> TTEntry" where
  "TTEntry_new k v t d m g = \<lparr>key = k, val = v, vtype = t, depth = d, move = m, gen = g\<rparr>"

text \<open>What \<^verbatim>\<open>memset(..., 0, ...)\<close> leaves in a slot: every field is zero.\<close>

definition TTEntry_zero :: TTEntry where
  "TTEntry_zero = \<lparr>key = 0, val = 0, vtype = VALUE_TYPE_NONE, depth = 0, move = 0, gen = 0\<rparr>"

text \<open>
  Modelled from the spec: MOVE_NONE is declared in move.h, which is missing. It is the
  distinguished token for "no move recorded", which is what a zero-filled (empty) entry
  records.
\<close>

definition MOVE_NONE :: Move where
  "MOVE_NONE = 0"

text \<open>
  The table object: \<^verbatim>\<open>unsigned size, writes; TTEntry* entries; uint8_t generation\<close>.
  The array behind \<^verbatim>\<open>entries\<close> is a list, the null pointer is the empty list, and a
  pointer into the array is its offset from \<^verbatim>\<open>entries\<close>, an \<^typ>\<open>int\<close>.
\<close>

record TranspositionTable =
  size_tt :: "32 word"
  writes :: "32 word"
  entries :: "TTEntry list"
  generation :: "8 word"

text \<open>
  What the code does not define is an error value of the model: reading or writing outside
  the array, a failed assertion, a failed allocation (the process exits), and the
  conversion to \<^verbatim>\<open>int\<close> of a double that is a NaN or infinite, or whose integer part
  is no \<^verbatim>\<open>int\<close>.
\<close>

datatype error = OutOfBounds | AssertFailed | AllocFailed | NotANumber | IntOutOfRange

text \<open>
  The collaborators of \<^verbatim>\<open>insert_pv\<close> that live outside tt.cpp: the class Position
  with \<^verbatim>\<open>get_key\<close> and \<^verbatim>\<open>do_move\<close>, and the constants VALUE_NONE and OnePly.
  They are parameters of the model.
\<close>

record 'p Externals =
  get_key :: "'p \<Rightarrow> Key"
  do_move :: "'p \<Rightarrow> Move \<Rightarrow> 'p"
  VALUE_NONE :: Value
  OnePly :: Depth

subsection \<open>Construction, sizing, clearing\<close>

definition TranspositionTable_new :: TranspositionTable where
  "TranspositionTable_new = \<lparr>size_tt = 0, writes = 0, entries = [], generation = 0\<rparr>"

text \<open>
  \<^verbatim>\<open>memset(entries, 0, size * 4 * sizeof(TTEntry))\<close> zeroes the first \<open>size * 4\<close>
  entries, the product taken in \<^verbatim>\<open>unsigned\<close>.
\<close>

definition clear :: "TranspositionTable \<Rightarrow> error + TranspositionTable" where
  "clear tt =
     (let n = unat (size_tt tt * 4)
      in if n \<le> length (entries tt)
         then Inr (tt\<lparr>entries := replicate n TTEntry_zero @ drop n (entries tt)\<rparr>)
         else Inl OutOfBounds)"

text \<open>
  The doubling loop of \<^verbatim>\<open>set_size\<close>. \<open>2 * newSize * 4\<close> is computed in
  \<^verbatim>\<open>unsigned\<close>, the product with \<^verbatim>\<open>sizeof(TTEntry)\<close> in \<^verbatim>\<open>size_t\<close>, and
  \<open>mbSize << 20\<close> in \<^verbatim>\<open>unsigned\<close>. \<^verbatim>\<open>sizeof(TTEntry)\<close> is the parameter \<open>sz\<close>.
  The loop has no bound of its own, so not returning is the value \<open>None\<close>.
\<close>

partial_function (option) set_size_loop :: "64 word \<Rightarrow> 32 word \<Rightarrow> 32 word \<Rightarrow> 32 word option" where
  "set_size_loop sz mbSize newSize =
     (if (ucast ((2 * newSize) * 4) :: 64 word) * sz \<le> ucast (push_bit 20 mbSize :: 32 word)
      then set_size_loop sz mbSize (newSize * 2)
      else Some newSize)"

text \<open>
  \<open>alloc_ok\<close> says whether \<^verbatim>\<open>new TTEntry[size * 4]\<close> delivers an array. The new array
  is cleared at once, so what the default constructor put there is never seen.
\<close>

definition set_size :: "64 word \<Rightarrow> bool \<Rightarrow> TranspositionTable \<Rightarrow> 32 word \<Rightarrow> (error + TranspositionTable) option" where
  "set_size sz alloc_ok tt mbSize =
     (if \<not> (4 \<le> mbSize \<and> mbSize \<le> 4096) then Some (Inl AssertFailed)
      else case set_size_loop sz mbSize 1024 of
             None \<Rightarrow> None
           | Some newSize \<Rightarrow>
               if newSize \<noteq> size_tt tt
               then (if alloc_ok
                     then Some (clear (tt\<lparr>size_tt := newSize,
                                          entries := replicate (unat (newSize * 4)) TTEntry_zero\<rparr>))
                     else Some (Inl AllocFailed))
               else Some (Inr tt))"

subsection \<open>Addressing, store and retrieve\<close>

text \<open>\<^verbatim>\<open>entries + (int(posKey & (size - 1)) << 2)\<close>, as an offset.\<close>

definition first_entry :: "TranspositionTable \<Rightarrow> Key \<Rightarrow> int" where
  "first_entry tt posKey =
     push_bit 2 (sint (ucast (posKey AND ucast (size_tt tt - 1)) :: 32 word))"

definition entry_at :: "TranspositionTable \<Rightarrow> int \<Rightarrow> error + TTEntry" where
  "entry_at tt p =
     (if 0 \<le> p \<and> p < int (length (entries tt)) then Inr (entries tt ! nat p)
      else Inl OutOfBounds)"

definition write_at :: "TranspositionTable \<Rightarrow> int \<Rightarrow> TTEntry \<Rightarrow> error + TranspositionTable" where
  "write_at tt p e =
     (if 0 \<le> p \<and> p < int (length (entries tt))
      then Inr (tt\<lparr>entries := (entries tt)[nat p := e]\<rparr>)
      else Inl OutOfBounds)"

text \<open>
  The loop of \<^verbatim>\<open>store\<close> from iteration \<open>i\<close> on, with the pointers \<open>tte\<close> and
  \<open>replace\<close>; after the fourth slot the victim \<open>replace\<close> is overwritten and the write
  counter goes up.
\<close>

function store_loop ::
  "TranspositionTable \<Rightarrow> Key \<Rightarrow> Value \<Rightarrow> ValueType \<Rightarrow> Depth \<Rightarrow> Move \<Rightarrow> int \<Rightarrow> int \<Rightarrow> nat
     \<Rightarrow> error + TranspositionTable" where
  "store_loop tt posKey v t d m tte replace i =
     (if i < 4 then
        (case entry_at tt tte of
           Inl err \<Rightarrow> Inl err
         | Inr e \<Rightarrow>
             if key e = 0 \<or> key e = posKey then
               (if key e \<noteq> 0 \<and> t = VALUE_TYPE_EVAL then Inr tt
                else write_at tt tte
                       (TTEntry_new posKey v t d (if m = MOVE_NONE then move e else m)
                          (generation tt)))
             else if i = 0 then store_loop tt posKey v t d m (tte + 1) replace (i + 1)
             else
               (case entry_at tt replace of
                  Inl err \<Rightarrow> Inl err
                | Inr r \<Rightarrow>
                    let c1 = (if gen r = generation tt then 2 else 0);
                        c2 = (if gen e = generation tt then - 2 else 0);
                        c3 = (if depth e < depth r then 1 else 0)
                    in store_loop tt posKey v t d m (tte + 1)
                         (if c1 + c2 + c3 > (0::int) then tte else replace) (i + 1)))
      else
        (case write_at tt replace (TTEntry_new posKey v t d m (generation tt)) of
           Inl err \<Rightarrow> Inl err
         | Inr tt' \<Rightarrow> Inr (tt'\<lparr>writes := writes tt' + 1\<rparr>)))"
  by pat_completeness auto
termination
  by (relation "measure (\<lambda>(tt, posKey, v, t, d, m, tte, replace, i). 4 - i)") auto

definition store ::
  "TranspositionTable \<Rightarrow> Key \<Rightarrow> Value \<Rightarrow> ValueType \<Rightarrow> Depth \<Rightarrow> Move \<Rightarrow> error + TranspositionTable" where
  "store tt posKey v t d m =
     store_loop tt posKey v t d m (first_entry tt posKey) (first_entry tt posKey) 0"

text \<open>\<^verbatim>\<open>retrieve\<close> returns the entry found, \<open>None\<close> for the null pointer.\<close>

function retrieve_loop :: "TranspositionTable \<Rightarrow> Key \<Rightarrow> int \<Rightarrow> nat \<Rightarrow> error + TTEntry option" where
  "retrieve_loop tt posKey tte i =
     (if i < 4 then
        (case entry_at tt tte of
           Inl err \<Rightarrow> Inl err
         | Inr e \<Rightarrow> if key e = posKey then Inr (Some e)
                    else retrieve_loop tt posKey (tte + 1) (i + 1))
      else Inr None)"
  by pat_completeness auto
termination
  by (relation "measure (\<lambda>(tt, posKey, tte, i). 4 - i)") auto

definition retrieve :: "TranspositionTable \<Rightarrow> Key \<Rightarrow> error + TTEntry option" where
  "retrieve tt posKey = retrieve_loop tt posKey (first_entry tt posKey) 0"

subsection \<open>Generation, principal variation, occupancy\<close>

definition new_search :: "TranspositionTable \<Rightarrow> TranspositionTable" where
  "new_search tt = tt\<lparr>generation := generation tt + 1, writes := 0\<rparr>"

text \<open>
  The array \<^verbatim>\<open>pv\<close> is the list of its elements; the loop reads it front to back, and
  running off its end without meeting MOVE_NONE is a read outside the array.
\<close>

fun insert_pv :: "'p Externals \<Rightarrow> TranspositionTable \<Rightarrow> 'p \<Rightarrow> Move list \<Rightarrow> error + TranspositionTable" where
  "insert_pv ext tt p [] = Inl OutOfBounds"
| "insert_pv ext tt p (mv # pv) =
     (if mv = MOVE_NONE then Inr tt
      else case store tt (get_key ext p) (VALUE_NONE ext) VALUE_TYPE_NONE (- 127 * OnePly ext) mv of
             Inl err \<Rightarrow> Inl err
           | Inr tt' \<Rightarrow> insert_pv ext tt' (do_move ext p mv) pv)"

subsection \<open>Double precision\<close>

text \<open>
  \<^verbatim>\<open>full\<close> computes in IEEE double precision with \<^verbatim>\<open>exp\<close> and \<^verbatim>\<open>log\<close> of the C
  library. A double is a finite value, an infinity or a NaN (the two zeros are one value:
  the only zero divisor of \<^verbatim>\<open>full\<close> is the product of two non-negative numbers, the
  positive zero). What the platform decides is a parameter: \<open>rnd\<close> rounds the exact result
  of an operation to a double, \<open>flog\<close> and \<open>fexp\<close> are the library's \<^verbatim>\<open>log\<close> and
  \<^verbatim>\<open>exp\<close> on the finite arguments where the C standard does not fix their value.
  Results too large for a double do not arise in \<^verbatim>\<open>full\<close>: its finite intermediate
  values stay below \<open>2 ^ 34\<close> in magnitude.
\<close>

datatype double = Finite real | PInf | NInf | NaN

record Double_ops =
  rnd :: "real \<Rightarrow> real"
  flog :: "real \<Rightarrow> real"
  fexp :: "real \<Rightarrow> real"

text \<open>
  The operations as \<^verbatim>\<open>full\<close> uses them: the left operand is a constant or a converted
  \<^verbatim>\<open>unsigned\<close>, hence finite.
\<close>

fun fmul :: "(real \<Rightarrow> real) \<Rightarrow> real \<Rightarrow> double \<Rightarrow> double" where
  "fmul r a (Finite b) = Finite (r (a * b))"
| "fmul r a PInf = (if 0 < a then PInf else if a < 0 then NInf else NaN)"
| "fmul r a NInf = (if 0 < a then NInf else if a < 0 then PInf else NaN)"
| "fmul r a NaN = NaN"

fun fsub :: "(real \<Rightarrow> real) \<Rightarrow> real \<Rightarrow> double \<Rightarrow> double" where
  "fsub r a (Finite b) = Finite (r (a - b))"
| "fsub r a PInf = NInf"
| "fsub r a NInf = PInf"
| "fsub r a NaN = NaN"

fun fdiv :: "(real \<Rightarrow> real) \<Rightarrow> real \<Rightarrow> double \<Rightarrow> double" where
  "fdiv r a (Finite b) =
     (if b = 0 then (if 0 < a then PInf else if a < 0 then NInf else NaN)
      else Finite (r (a / b)))"
| "fdiv r a PInf = Finite 0"
| "fdiv r a NInf = Finite 0"
| "fdiv r a NaN = NaN"

text \<open>\<^verbatim>\<open>log\<close> and \<^verbatim>\<open>exp\<close> with the special cases of the C standard (Annex F).\<close>

fun dlog :: "(real \<Rightarrow> real) \<Rightarrow> double \<Rightarrow> double" where
  "dlog lg (Finite x) = (if 0 < x then Finite (lg x) else if x = 0 then NInf else NaN)"
| "dlog lg PInf = PInf"
| "dlog lg NInf = NaN"
| "dlog lg NaN = NaN"

fun dexp :: "(real \<Rightarrow> real) \<Rightarrow> double \<Rightarrow> double" where
  "dexp ex (Finite y) = (if y = 0 then Finite 1 else Finite (ex y))"
| "dexp ex PInf = PInf"
| "dexp ex NInf = Finite 0"
| "dexp ex NaN = NaN"

text \<open>
  The conversion \<^verbatim>\<open>int(...)\<close> truncates towards zero; it is defined only for a finite
  double whose integer part is an \<^verbatim>\<open>int\<close>.
\<close>

definition trunc_int :: "real \<Rightarrow> int" where
  "trunc_int x = (if 0 \<le> x then \<lfloor>x\<rfloor> else \<lceil>x\<rceil>)"

fun to_int :: "double \<Rightarrow> error + int" where
  "to_int (Finite x) =
     (if - (2 ^ 31) \<le> trunc_int x \<and> trunc_int x < 2 ^ 31 then Inr (trunc_int x)
      else Inl IntOutOfRange)"
| "to_int PInf = Inl NotANumber"
| "to_int NInf = Inl NotANumber"
| "to_int NaN = Inl NotANumber"

text \<open>
  \<^verbatim>\<open>double N = double(size) * 4.0; return int(1000 * (1 - exp(writes * log(1.0 - 1.0/N))));\<close>
  The conversion of an \<^verbatim>\<open>unsigned\<close> to double is exact.
\<close>

definition full :: "Double_ops \<Rightarrow> TranspositionTable \<Rightarrow> error + int" where
  "full ops tt =
     (let N = fmul (rnd ops) (real (unat (size_tt tt))) (Finite 4.0)
      in to_int
           (fmul (rnd ops) 1000
              (fsub (rnd ops) 1
                 (dexp (fexp ops)
                    (fmul (rnd ops) (real (unat (writes tt)))
                       (dlog (flog ops) (fsub (rnd ops) 1.0 (fdiv (rnd ops) 1.0 N))))))))"

text \<open>
  What the theorems need of the rounding: it is monotone and leaves 0, 1/4, 3/4 and 4, which
  are doubles, as they are. Rounding to the nearest double is such a function.
\<close>

definition rounding_ok :: "Double_ops \<Rightarrow> bool" where
  "rounding_ok ops \<longleftrightarrow>
     mono (rnd ops) \<and> rnd ops 0 = 0 \<and> rnd ops (1 / 4) = 1 / 4
     \<and> rnd ops (3 / 4) = 3 / 4 \<and> rnd ops 4 = 4"

subsection \<open>Well-formed and reachable tables\<close>

text \<open>
  An allocated table: the array holds four entries for each of its \<open>size\<close> clusters.
  The bound on the size keeps \<^verbatim>\<open>int(...) << 2\<close> inside \<^verbatim>\<open>int\<close>.
\<close>

definition tt_ok :: "TranspositionTable \<Rightarrow> bool" where
  "tt_ok tt \<longleftrightarrow>
     size_tt tt \<noteq> 0 \<and> unat (size_tt tt) \<le> 2 ^ 29
     \<and> length (entries tt) = 4 * unat (size_tt tt)"

text \<open>The signatures that \<open>insert_pv\<close> visits: those of the replayed positions.\<close>

fun pv_keys :: "'p Externals \<Rightarrow> 'p \<Rightarrow> Move list \<Rightarrow> Key list" where
  "pv_keys ext p [] = []"
| "pv_keys ext p (mv # pv) =
     (if mv = MOVE_NONE then [] else get_key ext p # pv_keys ext (do_move ext p mv) pv)"

text \<open>
  The states a table goes through once it has been cleared, under calls of \<open>store\<close> and
  \<open>insert_pv\<close> with non-zero signatures (zero is reserved for the empty slot) and of
  \<open>new_search\<close>.
\<close>

inductive reachable :: "'p Externals \<Rightarrow> TranspositionTable \<Rightarrow> bool" for ext :: "'p Externals" where
  cleared: "tt_ok tt \<Longrightarrow> clear tt = Inr tt' \<Longrightarrow> reachable ext tt'"
| stored: "reachable ext tt \<Longrightarrow> posKey \<noteq> 0 \<Longrightarrow> store tt posKey v t d m = Inr tt'
     \<Longrightarrow> reachable ext tt'"
| pv_inserted: "reachable ext tt \<Longrightarrow> 0 \<notin> set (pv_keys ext p pv)
     \<Longrightarrow> insert_pv ext tt p pv = Inr tt' \<Longrightarrow> reachable ext tt'"
| searched: "reachable ext tt \<Longrightarrow> reachable ext (new_search tt)"

text \<open>The offset of the cluster of a signature, as a list index.\<close>

definition cluster_of :: "TranspositionTable \<Rightarrow> Key \<Rightarrow> nat" where
  "cluster_of tt posKey = 4 * unat (posKey AND ucast (size_tt tt - 1))"

text \<open>
  The cluster at offset \<open>b\<close> is in order: occupied slots come first, no two of them hold
  the same signature, and an empty slot is an all-zero entry.
\<close>

definition cluster_inv :: "TTEntry list \<Rightarrow> nat \<Rightarrow> bool" where
  "cluster_inv es b \<longleftrightarrow>
     (\<forall>i<4. \<forall>j<4. i < j \<longrightarrow> key (es ! (b + i)) = 0 \<longrightarrow> key (es ! (b + j)) = 0)
     \<and> (\<forall>i<4. \<forall>j<4. i < j \<longrightarrow> key (es ! (b + i)) \<noteq> 0 \<longrightarrow> key (es ! (b + i)) \<noteq> key (es ! (b + j)))
     \<and> (\<forall>i<4. key (es ! (b + i)) = 0 \<longrightarrow> es ! (b + i) = TTEntry_zero)"

definition tt_inv :: "TranspositionTable \<Rightarrow> bool" where
  "tt_inv tt \<longleftrightarrow> tt_ok tt \<and> (\<forall>c<unat (size_tt tt). cluster_inv (entries tt) (4 * c))"

text \<open>A slot is stale when its generation tag differs from the table's generation.\<close>

definition stale :: "TranspositionTable \<Rightarrow> nat \<Rightarrow> bool" where
  "stale tt i \<longleftrightarrow> gen (entries tt ! i) \<noteq> generation tt"

text \<open>
  Slot \<open>b + r\<close> is the preferred victim among the first \<open>n\<close> slots of the cluster at
  \<open>b\<close>: if one of them is stale, it is a stale one of least depth among the stale ones,
  otherwise it is one of least depth.
\<close>

definition victim_of :: "TranspositionTable \<Rightarrow> nat \<Rightarrow> nat \<Rightarrow> nat \<Rightarrow> bool" where
  "victim_of tt b n r \<longleftrightarrow>
     r < n
     \<and> ((\<exists>j<n. stale tt (b + j)) \<longrightarrow>
          stale tt (b + r)
          \<and> (\<forall>j<n. stale tt (b + j) \<longrightarrow> depth (entries tt ! (b + r)) \<le> depth (entries tt ! (b + j))))
     \<and> ((\<forall>j<n. \<not> stale tt (b + j)) \<longrightarrow>
          (\<forall>j<n. depth (entries tt ! (b + r)) \<le> depth (entries tt ! (b + j))))"

text \<open>
  The index (within the cluster at \<open>b\<close>) that \<open>replace\<close> points to after iteration \<open>j\<close>
  of the loop of \<open>store\<close> has compared slot \<open>j\<close> with the tentative victim \<open>r\<close>.
\<close>

definition next_replace :: "TranspositionTable \<Rightarrow> nat \<Rightarrow> nat \<Rightarrow> nat \<Rightarrow> nat" where
  "next_replace tt b r j =
     (if j = 0 then r
      else let c1 = (if gen (entries tt ! (b + r)) = generation tt then 2 else 0);
               c2 = (if gen (entries tt ! (b + j)) = generation tt then - 2 else 0);
               c3 = (if depth (entries tt ! (b + j)) < depth (entries tt ! (b + r)) then 1 else 0)
           in if c1 + c2 + c3 > (0::int) then j else r)"

text \<open>The stores of \<open>insert_pv\<close>, one for each pair of a signature and a move, in order.\<close>

fun store_all :: "'p Externals \<Rightarrow> TranspositionTable \<Rightarrow> (Key \<times> Move) list \<Rightarrow> error + TranspositionTable" where
  "store_all ext tt [] = Inr tt"
| "store_all ext tt ((k, mv) # kms) =
     (case store tt k (VALUE_NONE ext) VALUE_TYPE_NONE (- 127 * OnePly ext) mv of
        Inl err \<Rightarrow> Inl err
      | Inr tt' \<Rightarrow> store_all ext tt' kms)"


subsection \<open>Example tables\<close>

text \<open>
  Positions numbered by naturals, each its own signature, and a move leading to the next
  one; the constants take the values 32002 and 2.
\<close>

definition ext_ex :: "nat Externals" where
  "ext_ex = \<lparr>get_key = of_nat, do_move = (\<lambda>p mv. Suc p), VALUE_NONE = 32002, OnePly = 2\<rparr>"

text \<open>Arithmetic without rounding error, with the real logarithm and exponential.\<close>

definition exact_ops :: Double_ops where
  "exact_ops = \<lparr>rnd = (\<lambda>x. x), flog = ln, fexp = exp\<rparr>"

text \<open>A cleared table of 4 clusters (16 slots); signatures 5, 9, 13, 17 and 21 share cluster 1.\<close>

definition table_empty :: TranspositionTable where
  "table_empty = \<lparr>size_tt = 4, writes = 0, entries = replicate 16 TTEntry_zero, generation = 0\<rparr>"

text \<open>The same table after \<open>store 5 100 VALUE_TYPE_EXACT 3 7\<close>.\<close>

definition table_one :: TranspositionTable where
  "table_one = \<lparr>size_tt = 4, writes = 0,
     entries = (replicate 16 TTEntry_zero)[4 := TTEntry_new 5 100 VALUE_TYPE_EXACT 3 7 0],
     generation = 0\<rparr>"

text \<open>And after a further \<open>store 5 1 VALUE_TYPE_EXACT 3 MOVE_NONE\<close>, which keeps move 7.\<close>

definition table_two :: TranspositionTable where
  "table_two = \<lparr>size_tt = 4, writes = 0,
     entries = (replicate 16 TTEntry_zero)[4 := TTEntry_new 5 1 VALUE_TYPE_EXACT 3 7 0],
     generation = 0\<rparr>"

text \<open>
  Cluster 1 full: signature 5 stored with depth 5 in the current generation 1, and
  signatures 9, 13 and 17 with depth 1 in the previous generation 0.
\<close>

definition table_full :: TranspositionTable where
  "table_full = \<lparr>size_tt = 4, writes = 0,
     entries = replicate 4 TTEntry_zero @
       [TTEntry_new 5 100 VALUE_TYPE_EXACT 5 7 1,
        TTEntry_new 9 0 VALUE_TYPE_UPPER 1 0 0,
        TTEntry_new 13 0 VALUE_TYPE_UPPER 1 0 0,
        TTEntry_new 17 0 VALUE_TYPE_UPPER 1 0 0] @ replicate 8 TTEntry_zero,
     generation = 1\<rparr>"

text \<open>
  A table of 4 megabytes with entries of 16 bytes: 65536 clusters, as \<open>set_size\<close> makes it,
  and the same table after \<open>store 1 10 VALUE_TYPE_EXACT 3 7\<close>.
\<close>

definition table_4mb_empty :: TranspositionTable where
  "table_4mb_empty =
     \<lparr>size_tt = 65536, writes = 0, entries = replicate 262144 TTEntry_zero, generation = 0\<rparr>"

definition table_4mb :: TranspositionTable where
  "table_4mb =
     \<lparr>size_tt = 65536, writes = 0,
      entries = (replicate 262144 TTEntry_zero)[4 := TTEntry_new 1 10 VALUE_TYPE_EXACT 3 7 0],
      generation = 0\<rparr>"

section \<open>Auxiliary facts about the loops\<close>

lemma first_entry_ok:
  assumes "tt_ok tt"
  shows "first_entry tt k = int (cluster_of tt k) \<and> cluster_of tt k + 3 < length (entries tt)
    \<and> (\<exists>c<unat (size_tt tt). cluster_of tt k = 4 * c)"
proof -
  let ?x = "k AND ucast (size_tt tt - 1)"
  have sz: "size_tt tt \<noteq> 0" "unat (size_tt tt) \<le> 2 ^ 29"
    "length (entries tt) = 4 * unat (size_tt tt)"
    using assms by (simp_all add: tt_ok_def)
  have "?x \<le> ucast (size_tt tt - 1)"
    by (rule word_and_le1)
  then have "unat ?x \<le> unat (ucast (size_tt tt - 1) :: 64 word)"
    by (simp add: word_le_nat_alt)
  also have "\<dots> = unat (size_tt tt - 1)"
    by (simp add: unsigned_ucast_eq take_bit_nat_eq_self_iff
        order_less_trans [OF unsigned_less])
  also have "\<dots> = unat (size_tt tt) - 1"
    using sz(1) by (rule unat_minus_one)
  finally have le: "unat ?x \<le> unat (size_tt tt) - 1" .
  have "0 < unat (size_tt tt)" using sz(1) by (simp add: unat_gt_0)
  with le have lt: "unat ?x < unat (size_tt tt)" by linarith
  then have small: "unat ?x < 2 ^ 29"
    using sz(2) by linarith
  have u32: "unat (ucast ?x :: 32 word) = unat ?x"
    using small by (simp add: unsigned_ucast_eq take_bit_nat_eq_self_iff)
  have "uint (ucast ?x :: 32 word) = int (unat ?x)"
    by (simp only: u32 [symmetric] of_nat_unat)
  moreover have "signed_take_bit 31 (int n) = int n" if "n < 2 ^ 29" for n :: nat
    using that by (intro signed_take_bit_int_eq_self) simp_all
  from this [OF small] have "signed_take_bit 31 (int (unat ?x)) = int (unat ?x)" .
  ultimately have "sint (ucast ?x :: 32 word) = int (unat ?x)"
    by (simp only: sint_uint) simp
  then have "first_entry tt k = int (cluster_of tt k)"
    by (simp add: first_entry_def cluster_of_def push_bit_eq_mult)
  moreover have "cluster_of tt k + 3 < length (entries tt)"
    using lt sz(3) by (simp add: cluster_of_def)
  moreover have "\<exists>c<unat (size_tt tt). cluster_of tt k = 4 * c"
    using lt by (auto simp: cluster_of_def)
  ultimately show ?thesis by blast
qed

declare store_loop.simps [simp del] retrieve_loop.simps [simp del]

lemma entry_at_in: "p < length (entries tt) \<Longrightarrow> entry_at tt (int p) = Inr (entries tt ! p)"
  by (simp add: entry_at_def)

lemma write_at_in:
  "p < length (entries tt) \<Longrightarrow> write_at tt (int p) e = Inr (tt\<lparr>entries := (entries tt)[p := e]\<rparr>)"
  by (simp add: write_at_def)

lemma store_loop_step:
  assumes "b + j < length (entries tt)" "b + r < length (entries tt)" "j < 4"
    and "key (entries tt ! (b + j)) \<noteq> 0" "key (entries tt ! (b + j)) \<noteq> k"
  shows "store_loop tt k v t d m (int (b + j)) (int (b + r)) j =
         store_loop tt k v t d m (int (b + Suc j)) (int (b + next_replace tt b r j)) (Suc j)"
proof -
  have e1: "entry_at tt (int (b + j)) = Inr (entries tt ! (b + j))"
    by (rule entry_at_in) fact
  have e2: "entry_at tt (int (b + r)) = Inr (entries tt ! (b + r))"
    by (rule entry_at_in) fact
  have p: "int (b + j) + 1 = int (b + Suc j)" by simp
  have eq: "store_loop tt k v t d m (int (b + j)) (int (b + r)) j =
     (if j = 0 then store_loop tt k v t d m (int (b + Suc j)) (int (b + r)) (Suc j)
      else store_loop tt k v t d m (int (b + Suc j))
        (if (if gen (entries tt ! (b + r)) = generation tt then 2 else 0)
            + (if gen (entries tt ! (b + j)) = generation tt then - 2 else 0)
            + (if depth (entries tt ! (b + j)) < depth (entries tt ! (b + r)) then 1 else 0) > (0::int)
         then int (b + j) else int (b + r)) (Suc j))"
    by (subst store_loop.simps)
       (simp only: e1 e2 p sum.case assms(3,4,5) if_True if_False simp_thms Let_def Suc_eq_plus1)
  show ?thesis
    unfolding eq by (auto simp: next_replace_def Let_def)
qed

lemma next_replace_less: "r < 4 \<Longrightarrow> j < 4 \<Longrightarrow> next_replace tt b r j < 4"
  by (simp add: next_replace_def Let_def)

lemma store_loop_hit:
  assumes "b + 3 < length (entries tt)" "i < 4" "j \<le> i" "r < 4"
    and "\<forall>l. j \<le> l \<and> l < i \<longrightarrow> key (entries tt ! (b + l)) \<noteq> 0 \<and> key (entries tt ! (b + l)) \<noteq> k"
    and "key (entries tt ! (b + i)) = 0 \<or> key (entries tt ! (b + i)) = k"
  shows "store_loop tt k v t d m (int (b + j)) (int (b + r)) j =
     (if key (entries tt ! (b + i)) \<noteq> 0 \<and> t = VALUE_TYPE_EVAL then Inr tt
      else Inr (tt\<lparr>entries := (entries tt)[b + i := TTEntry_new k v t d
             (if m = MOVE_NONE then move (entries tt ! (b + i)) else m) (generation tt)]\<rparr>))"
  using assms
proof (induction "i - j" arbitrary: j r)
  case 0
  then have "j = i" by simp
  with 0 show ?case
    by (subst store_loop.simps) (simp only: entry_at_in write_at_in, auto)
next
  case (Suc n)
  then have lt: "j < i" and n: "n = i - Suc j" by simp_all
  have j4: "j < 4" using lt Suc.prems(2) by simp
  have other: "key (entries tt ! (b + j)) \<noteq> 0" "key (entries tt ! (b + j)) \<noteq> k"
    using Suc.prems(5) lt by auto
  have inb: "b + j < length (entries tt)" "b + r < length (entries tt)"
    using Suc.prems lt by simp_all
  have rest: "\<forall>l. Suc j \<le> l \<and> l < i \<longrightarrow>
       key (entries tt ! (b + l)) \<noteq> 0 \<and> key (entries tt ! (b + l)) \<noteq> k"
    using Suc.prems(5) by auto
  have "Suc j \<le> i" using lt by simp
  from Suc.hyps(1) [OF n Suc.prems(1,2) this next_replace_less [OF Suc.prems(4) j4] rest Suc.prems(6)]
  show ?case
    by (simp only: store_loop_step [OF inb j4 other])
qed


lemma victim_of_first: "victim_of tt b (Suc 0) 0"
  by (simp add: victim_of_def)

lemma victim_of_step:
  assumes "victim_of tt b n r" "0 < n"
  shows "victim_of tt b (Suc n) (next_replace tt b r n)"
proof -
  let ?d = "\<lambda>i. depth (entries tt ! (b + i))"
  let ?s = "\<lambda>i. stale tt (b + i)"
  have r: "r < n" using assms by (simp add: victim_of_def)
  have A: "(\<exists>j<n. ?s j) \<Longrightarrow> ?s r \<and> (\<forall>j<n. ?s j \<longrightarrow> ?d r \<le> ?d j)"
    and B: "(\<forall>j<n. \<not> ?s j) \<Longrightarrow> (\<forall>j<n. ?d r \<le> ?d j)"
    using assms(1) by (auto simp: victim_of_def)
  have nr: "next_replace tt b r n =
     (if (?s r \<and> \<not> ?s n) \<or> ((?s r \<longleftrightarrow> ?s n) \<and> \<not> ?d n < ?d r) then r else n)"
    using assms(2) by (auto simp: next_replace_def stale_def Let_def)
  show ?thesis
  proof (cases "?s r")
    case True
    then have m: "\<forall>j<n. ?s j \<longrightarrow> ?d r \<le> ?d j" using A r by blast
    show ?thesis
    proof (cases "?s n \<and> ?d n < ?d r")
      case True
      then have "next_replace tt b r n = n" using \<open>?s r\<close> by (simp add: nr)
      moreover have "\<forall>j<Suc n. ?s j \<longrightarrow> ?d n \<le> ?d j"
        using m True by (auto simp: less_Suc_eq) 
      ultimately show ?thesis using True by (auto simp: victim_of_def)
    next
      case False
      then have "next_replace tt b r n = r" using \<open>?s r\<close> by (auto simp: nr)
      moreover have "\<forall>j<Suc n. ?s j \<longrightarrow> ?d r \<le> ?d j"
        using m False by (auto simp: less_Suc_eq)
      ultimately show ?thesis using \<open>?s r\<close> r by (auto simp: victim_of_def)
    qed
  next
    case False
    then have none: "\<forall>j<n. \<not> ?s j" using A by blast
    then have m: "\<forall>j<n. ?d r \<le> ?d j" using B by blast
    show ?thesis
    proof (cases "?s n")
      case True
      then have "next_replace tt b r n = n" using False by (simp add: nr)
      moreover have "\<forall>j<Suc n. ?s j \<longrightarrow> ?d n \<le> ?d j"
        using none by (auto simp: less_Suc_eq)
      ultimately show ?thesis using True by (auto simp: victim_of_def)
    next
      case sn: False
      show ?thesis
      proof (cases "?d n < ?d r")
        case True
        then have "next_replace tt b r n = n" using False sn by (simp add: nr)
        moreover have "\<forall>j<Suc n. \<not> ?s j" using none sn by (auto simp: less_Suc_eq)
        moreover have "\<forall>j<Suc n. ?d n \<le> ?d j" using m True by (auto simp: less_Suc_eq)
        ultimately show ?thesis by (simp add: victim_of_def)
      next
        case dn: False
        then have "next_replace tt b r n = r" using False sn by (simp add: nr)
        moreover have "\<forall>j<Suc n. \<not> ?s j" using none sn by (auto simp: less_Suc_eq)
        moreover have "\<forall>j<Suc n. ?d r \<le> ?d j" using m dn by (auto simp: less_Suc_eq)
        ultimately show ?thesis using r by (simp add: victim_of_def)
      qed
    qed
  qed
qed

lemma store_loop_evict:
  assumes "b + 3 < length (entries tt)" "j \<le> 4"
    and "\<forall>l<4. key (entries tt ! (b + l)) \<noteq> 0 \<and> key (entries tt ! (b + l)) \<noteq> k"
    and "(j = 0 \<and> r = 0) \<or> (0 < j \<and> victim_of tt b j r)"
  shows "\<exists>r'. victim_of tt b 4 r' \<and>
     store_loop tt k v t d m (int (b + j)) (int (b + r)) j =
       Inr (tt\<lparr>entries := (entries tt)[b + r' := TTEntry_new k v t d m (generation tt)],
               writes := writes tt + 1\<rparr>)"
  using assms
proof (induction "4 - j" arbitrary: j r)
  case 0
  then have j: "j = 4" by simp
  with 0 have v: "victim_of tt b 4 r" by simp
  then have "r < 4" by (simp add: victim_of_def)
  then have "b + r < length (entries tt)" using 0 by simp
  then have "store_loop tt k v t d m (int (b + j)) (int (b + r)) j =
       Inr (tt\<lparr>entries := (entries tt)[b + r := TTEntry_new k v t d m (generation tt)],
               writes := writes tt + 1\<rparr>)"
    unfolding j by (subst store_loop.simps) (simp add: write_at_def nat_int_add)
  with v show ?case by blast
next
  case (Suc n)
  then have j4: "j < 4" and n: "n = 4 - Suc j" by simp_all
  have r4: "r < 4" using Suc.prems(4) j4 by (auto simp: victim_of_def)
  have inb: "b + j < length (entries tt)" "b + r < length (entries tt)"
    using Suc.prems(1) j4 r4 by simp_all
  have other: "key (entries tt ! (b + j)) \<noteq> 0" "key (entries tt ! (b + j)) \<noteq> k"
    using Suc.prems(3) j4 by auto
  have nxt: "(Suc j = 0 \<and> next_replace tt b r j = 0)
      \<or> (0 < Suc j \<and> victim_of tt b (Suc j) (next_replace tt b r j))"
  proof (cases "j = 0")
    case True
    with Suc.prems(4) have "r = 0" by (auto simp: victim_of_def)
    with True show ?thesis by (simp add: next_replace_def victim_of_first)
  next
    case False
    with Suc.prems(4) show ?thesis by (simp add: victim_of_step)
  qed
  have "Suc j \<le> 4" using j4 by simp
  from Suc.hyps(1) [OF n Suc.prems(1) this Suc.prems(3) nxt]
  show ?case by (simp only: store_loop_step [OF inb j4 other])
qed

lemma retrieve_loop_step:
  assumes "b + j < length (entries tt)" "j < 4" "key (entries tt ! (b + j)) \<noteq> k"
  shows "retrieve_loop tt k (int (b + j)) j = retrieve_loop tt k (int (b + Suc j)) (Suc j)"
proof -
  have e1: "entry_at tt (int (b + j)) = Inr (entries tt ! (b + j))"
    by (rule entry_at_in) fact
  have p: "int (b + j) + 1 = int (b + Suc j)" by simp
  show ?thesis
    by (subst retrieve_loop.simps)
       (simp only: e1 p sum.case assms(2,3) if_True if_False Suc_eq_plus1)
qed

lemma retrieve_loop_hit:
  assumes "b + 3 < length (entries tt)" "i < 4" "j \<le> i"
    and "\<forall>l. j \<le> l \<and> l < i \<longrightarrow> key (entries tt ! (b + l)) \<noteq> k"
    and "key (entries tt ! (b + i)) = k"
  shows "retrieve_loop tt k (int (b + j)) j = Inr (Some (entries tt ! (b + i)))"
  using assms
proof (induction "i - j" arbitrary: j)
  case 0
  then have "j = i" by simp
  with 0 show ?case
    by (subst retrieve_loop.simps) (simp add: entry_at_def nat_int_add)
next
  case (Suc n)
  then have lt: "j < i" and n: "n = i - Suc j" by simp_all
  have j4: "j < 4" using lt Suc.prems(2) by simp
  have inb: "b + j < length (entries tt)" using Suc.prems(1) j4 by simp
  have other: "key (entries tt ! (b + j)) \<noteq> k" using Suc.prems(4) lt by auto
  have rest: "\<forall>l. Suc j \<le> l \<and> l < i \<longrightarrow> key (entries tt ! (b + l)) \<noteq> k"
    using Suc.prems(4) by auto
  have "Suc j \<le> i" using lt by simp
  from Suc.hyps(1) [OF n Suc.prems(1,2) this rest Suc.prems(5)]
  show ?case by (simp only: retrieve_loop_step [OF inb j4 other])
qed

lemma retrieve_loop_miss:
  assumes "b + 3 < length (entries tt)" "j \<le> 4"
    and "\<forall>l. j \<le> l \<and> l < 4 \<longrightarrow> key (entries tt ! (b + l)) \<noteq> k"
  shows "retrieve_loop tt k (int (b + j)) j = Inr None"
  using assms
proof (induction "4 - j" arbitrary: j)
  case 0
  then have "j = 4" by simp
  then show ?case by (subst retrieve_loop.simps) simp
next
  case (Suc n)
  then have j4: "j < 4" and n: "n = 4 - Suc j" by simp_all
  have inb: "b + j < length (entries tt)" using Suc.prems(1) j4 by simp
  have other: "key (entries tt ! (b + j)) \<noteq> k" using Suc.prems(3) j4 by auto
  have rest: "\<forall>l. Suc j \<le> l \<and> l < 4 \<longrightarrow> key (entries tt ! (b + l)) \<noteq> k"
    using Suc.prems(3) by auto
  have "Suc j \<le> 4" using j4 by simp
  from Suc.hyps(1) [OF n Suc.prems(1) this rest]
  show ?case by (simp only: retrieve_loop_step [OF inb j4 other])
qed


lemma store_hit:
  assumes "tt_ok tt" "i < 4"
    and "\<forall>l<i. key (entries tt ! (cluster_of tt k + l)) \<noteq> 0 \<and> key (entries tt ! (cluster_of tt k + l)) \<noteq> k"
    and "key (entries tt ! (cluster_of tt k + i)) = 0 \<or> key (entries tt ! (cluster_of tt k + i)) = k"
  shows "store tt k v t d m =
     (if key (entries tt ! (cluster_of tt k + i)) \<noteq> 0 \<and> t = VALUE_TYPE_EVAL then Inr tt
      else Inr (tt\<lparr>entries := (entries tt)[cluster_of tt k + i := TTEntry_new k v t d
             (if m = MOVE_NONE then move (entries tt ! (cluster_of tt k + i)) else m) (generation tt)]\<rparr>))"
proof -
  note fe = first_entry_ok [OF assms(1), of k]
  have "store tt k v t d m =
      store_loop tt k v t d m (int (cluster_of tt k + 0)) (int (cluster_of tt k + 0)) 0"
    using fe by (simp only: store_def add_0_right)
  also have "\<dots> = (if key (entries tt ! (cluster_of tt k + i)) \<noteq> 0 \<and> t = VALUE_TYPE_EVAL then Inr tt
      else Inr (tt\<lparr>entries := (entries tt)[cluster_of tt k + i := TTEntry_new k v t d
             (if m = MOVE_NONE then move (entries tt ! (cluster_of tt k + i)) else m) (generation tt)]\<rparr>))"
    by (rule store_loop_hit) (use fe assms(2,3,4) in auto)
  finally show ?thesis .
qed

lemma store_evict:
  assumes "tt_ok tt"
    and "\<forall>l<4. key (entries tt ! (cluster_of tt k + l)) \<noteq> 0 \<and> key (entries tt ! (cluster_of tt k + l)) \<noteq> k"
  shows "\<exists>r. victim_of tt (cluster_of tt k) 4 r \<and>
     store tt k v t d m =
       Inr (tt\<lparr>entries := (entries tt)[cluster_of tt k + r := TTEntry_new k v t d m (generation tt)],
               writes := writes tt + 1\<rparr>)"
proof -
  note fe = first_entry_ok [OF assms(1), of k]
  have "store tt k v t d m =
      store_loop tt k v t d m (int (cluster_of tt k + 0)) (int (cluster_of tt k + 0)) 0"
    using fe by (simp only: store_def add_0_right)
  moreover have "\<exists>r'. victim_of tt (cluster_of tt k) 4 r' \<and>
     store_loop tt k v t d m (int (cluster_of tt k + 0)) (int (cluster_of tt k + 0)) 0 =
       Inr (tt\<lparr>entries := (entries tt)[cluster_of tt k + r' := TTEntry_new k v t d m (generation tt)],
               writes := writes tt + 1\<rparr>)"
    by (rule store_loop_evict) (use fe assms(2) in auto)
  ultimately show ?thesis by simp
qed

lemma retrieve_hit:
  assumes "tt_ok tt" "i < 4"
    and "\<forall>l<i. key (entries tt ! (cluster_of tt k + l)) \<noteq> k"
    and "key (entries tt ! (cluster_of tt k + i)) = k"
  shows "retrieve tt k = Inr (Some (entries tt ! (cluster_of tt k + i)))"
proof -
  note fe = first_entry_ok [OF assms(1), of k]
  have "retrieve tt k = retrieve_loop tt k (int (cluster_of tt k + 0)) 0"
    using fe by (simp only: retrieve_def add_0_right)
  also have "\<dots> = Inr (Some (entries tt ! (cluster_of tt k + i)))"
    by (rule retrieve_loop_hit) (use fe assms(2,3,4) in auto)
  finally show ?thesis .
qed

lemma retrieve_miss:
  assumes "tt_ok tt"
    and "\<forall>l<4. key (entries tt ! (cluster_of tt k + l)) \<noteq> k"
  shows "retrieve tt k = Inr None"
proof -
  note fe = first_entry_ok [OF assms(1), of k]
  have "retrieve tt k = retrieve_loop tt k (int (cluster_of tt k + 0)) 0"
    using fe by (simp only: retrieve_def add_0_right)
  also have "\<dots> = Inr None"
    by (rule retrieve_loop_miss) (use fe assms(2) in auto)
  finally show ?thesis .
qed

text \<open>The scan of a cluster for a signature meets a first slot that is empty or matches, or none.\<close>

lemma scan_cases:
  fixes es :: "TTEntry list"
  obtains (hit) i where "i < 4" "\<forall>l<i. key (es ! (b + l)) \<noteq> 0 \<and> key (es ! (b + l)) \<noteq> k"
      "key (es ! (b + i)) = 0 \<or> key (es ! (b + i)) = k"
    | (full) "\<forall>l<4. key (es ! (b + l)) \<noteq> 0 \<and> key (es ! (b + l)) \<noteq> k"
proof -
  define h where "h = (\<lambda>i. i < 4 \<and> (key (es ! (b + i)) = 0 \<or> key (es ! (b + i)) = k))"
  show ?thesis
  proof (cases "\<exists>i. h i")
    case True
    define i where "i = Least h"
    from True have P: "h i" unfolding i_def by (rule LeastI_ex)
    have N: "\<not> h l" if "l < i" for l
      using that unfolding i_def by (rule not_less_Least)
    have i4: "i < 4" and hi: "key (es ! (b + i)) = 0 \<or> key (es ! (b + i)) = k"
      using P by (simp_all add: h_def)
    have "\<forall>l<i. key (es ! (b + l)) \<noteq> 0 \<and> key (es ! (b + l)) \<noteq> k"
    proof (intro allI impI)
      fix l assume l: "l < i"
      then have "l < 4" using i4 by simp
      with N [OF l] show "key (es ! (b + l)) \<noteq> 0 \<and> key (es ! (b + l)) \<noteq> k"
        by (simp add: h_def)
    qed
    with i4 hi show ?thesis by (intro hit [of i])
  next
    case False
    then have "\<forall>l<4. key (es ! (b + l)) \<noteq> 0 \<and> key (es ! (b + l)) \<noteq> k"
      unfolding h_def by blast
    then show ?thesis by (rule full)
  qed
qed

subsection \<open>The three ways a \<open>store\<close> ends, and the invariant\<close>

lemma store_cases [consumes 1, case_names aborted written evicted]:
  assumes "tt_ok tt"
  obtains (aborted) i where "i < 4"
      "\<forall>l<i. key (entries tt ! (cluster_of tt k + l)) \<noteq> 0 \<and> key (entries tt ! (cluster_of tt k + l)) \<noteq> k"
      "key (entries tt ! (cluster_of tt k + i)) = k" "k \<noteq> 0" "t = VALUE_TYPE_EVAL"
      "store tt k v t d m = Inr tt"
    | (written) i where "i < 4"
      "\<forall>l<i. key (entries tt ! (cluster_of tt k + l)) \<noteq> 0 \<and> key (entries tt ! (cluster_of tt k + l)) \<noteq> k"
      "key (entries tt ! (cluster_of tt k + i)) = 0 \<or> key (entries tt ! (cluster_of tt k + i)) = k"
      "key (entries tt ! (cluster_of tt k + i)) = 0 \<or> t \<noteq> VALUE_TYPE_EVAL"
      "store tt k v t d m =
         Inr (tt\<lparr>entries := (entries tt)[cluster_of tt k + i := TTEntry_new k v t d
             (if m = MOVE_NONE then move (entries tt ! (cluster_of tt k + i)) else m) (generation tt)]\<rparr>)"
    | (evicted) r where
      "\<forall>l<4. key (entries tt ! (cluster_of tt k + l)) \<noteq> 0 \<and> key (entries tt ! (cluster_of tt k + l)) \<noteq> k"
      "victim_of tt (cluster_of tt k) 4 r"
      "store tt k v t d m =
         Inr (tt\<lparr>entries := (entries tt)[cluster_of tt k + r := TTEntry_new k v t d m (generation tt)],
                 writes := writes tt + 1\<rparr>)"
proof (cases rule: scan_cases [of "entries tt" "cluster_of tt k" k])
  case (hit i)
  note st = store_hit [OF assms hit, of v t d m]
  show ?thesis
  proof (cases "key (entries tt ! (cluster_of tt k + i)) \<noteq> 0 \<and> t = VALUE_TYPE_EVAL")
    case True
    with hit st show ?thesis by (intro aborted [of i]) auto
  next
    case False
    with hit st show ?thesis by (intro written [of i]) auto
  qed
next
  case full
  from store_evict [OF assms full, of v t d m] obtain r where
    "victim_of tt (cluster_of tt k) 4 r"
    "store tt k v t d m =
         Inr (tt\<lparr>entries := (entries tt)[cluster_of tt k + r := TTEntry_new k v t d m (generation tt)],
                 writes := writes tt + 1\<rparr>)"
    by blast
  with full show ?thesis by (intro evicted [of r])
qed

lemma cluster_inv_other:
  assumes "c \<noteq> c0" "i < 4"
  shows "cluster_inv (es[4 * c0 + i := e]) (4 * c) = cluster_inv es (4 * c)"
proof -
  have "(es[4 * c0 + i := e]) ! (4 * c + j) = es ! (4 * c + j)" if "j < 4" for j
  proof -
    have "4 * c + j \<noteq> 4 * c0 + i" using assms that by arith
    then show ?thesis by simp
  qed
  then show ?thesis by (simp add: cluster_inv_def)
qed

lemma cluster_inv_same_key:
  assumes "cluster_inv es b" "i < 4" "b + 3 < length es"
    and "key (es ! (b + i)) = k" "k \<noteq> 0" "key e = k"
  shows "cluster_inv (es[b + i := e]) b"
proof -
  have k: "key ((es[b + i := e]) ! (b + j)) = key (es ! (b + j))" if "j < 4" for j
    using assms that by (cases "j = i") simp_all
  have z: "(es[b + i := e]) ! (b + j) = es ! (b + j)" if "j < 4" "key (es ! (b + j)) = 0" for j
    using assms that by (cases "j = i") auto
  show ?thesis
    using assms(1) unfolding cluster_inv_def by (simp add: k z)
qed

lemma cluster_inv_fill:
  assumes "cluster_inv es b" "i < 4" "b + 3 < length es"
    and "\<forall>l<i. key (es ! (b + l)) \<noteq> 0 \<and> key (es ! (b + l)) \<noteq> k"
    and "key (es ! (b + i)) = 0" "k \<noteq> 0" "key e = k"
  shows "cluster_inv (es[b + i := e]) b"
proof -
  let ?es = "es[b + i := e]"
  have pre: "\<And>x y. x < 4 \<Longrightarrow> y < 4 \<Longrightarrow> x < y \<Longrightarrow> key (es ! (b + x)) = 0 \<Longrightarrow> key (es ! (b + y)) = 0"
    and dis: "\<And>x y. x < 4 \<Longrightarrow> y < 4 \<Longrightarrow> x < y \<Longrightarrow> key (es ! (b + x)) \<noteq> 0
        \<Longrightarrow> key (es ! (b + x)) \<noteq> key (es ! (b + y))"
    and zer: "\<And>x. x < 4 \<Longrightarrow> key (es ! (b + x)) = 0 \<Longrightarrow> es ! (b + x) = TTEntry_zero"
    using assms(1) unfolding cluster_inv_def by metis+
  have at_i: "?es ! (b + i) = e" using assms(2,3) by simp
  have off: "?es ! (b + j) = es ! (b + j)" if "j \<noteq> i" for j using that by simp
  have before: "key (es ! (b + l)) \<noteq> 0" "key (es ! (b + l)) \<noteq> k" if "l < i" for l
    using assms(4) that by auto
  have after: "key (es ! (b + l)) = 0" if "i < l" "l < 4" for l
    using pre [OF assms(2) that(2) that(1) assms(5)] .
  have kk: "key (?es ! (b + j)) = (if j = i then k else key (es ! (b + j)))" for j
    using at_i off assms(7) by simp
  have pos: "key (es ! (b + j)) = 0 \<longleftrightarrow> i \<le> j" if "j < 4" for j
  proof (cases j i rule: linorder_cases)
    case less
    then show ?thesis using before(1) [of j] by simp
  next
    case equal
    then show ?thesis using assms(5) by simp
  next
    case greater
    then show ?thesis using after [OF _ that] by simp
  qed
  show ?thesis
    unfolding cluster_inv_def
  proof (intro conjI allI impI)
    fix x y :: nat assume xy: "x < 4" "y < 4" "x < y" and z: "key (?es ! (b + x)) = 0"
    from z have "x \<noteq> i" using assms(6) by (auto simp: kk)
    with z have "key (es ! (b + x)) = 0" by (simp add: kk)
    then have "i \<le> x" using pos [OF xy(1)] by simp
    then have "i < y" using xy(3) by simp
    then show "key (?es ! (b + y)) = 0" using after [OF _ xy(2)] by (simp add: kk)
  next
    fix x y :: nat assume xy: "x < 4" "y < 4" "x < y" and nz: "key (?es ! (b + x)) \<noteq> 0"
    show "key (?es ! (b + x)) \<noteq> key (?es ! (b + y))"
    proof (cases "x = i")
      case True
      then have "i < y" using xy(3) by simp
      then have "key (?es ! (b + y)) = 0" using after [OF _ xy(2)] by (simp add: kk)
      moreover have "key (?es ! (b + x)) = k" using True by (simp add: kk)
      ultimately show ?thesis using assms(6) by simp
    next
      case False
      then have kx: "key (?es ! (b + x)) = key (es ! (b + x))" by (simp add: kk)
      with nz have "\<not> i \<le> x" using pos [OF xy(1)] by simp
      then have "x < i" by simp
      note bx = before [OF this]
      show ?thesis
      proof (cases "y = i")
        case True
        then show ?thesis using bx kx by (simp add: kk)
      next
        case False
        then show ?thesis using dis [OF xy bx(1)] kx by (simp add: kk)
      qed
    qed
  next
    fix x :: nat assume x: "x < 4" and z: "key (?es ! (b + x)) = 0"
    from z have ne: "x \<noteq> i" using assms(6) by (auto simp: kk)
    with z have "key (es ! (b + x)) = 0" by (simp add: kk)
    then show "?es ! (b + x) = TTEntry_zero" using zer [OF x] off [OF ne] by simp
  qed
qed

lemma cluster_inv_evict:
  assumes "cluster_inv es b" "r < 4" "b + 3 < length es"
    and "\<forall>l<4. key (es ! (b + l)) \<noteq> 0 \<and> key (es ! (b + l)) \<noteq> k"
    and "k \<noteq> 0" "key e = k"
  shows "cluster_inv (es[b + r := e]) b"
proof -
  let ?es = "es[b + r := e]"
  have dis: "\<And>x y. x < 4 \<Longrightarrow> y < 4 \<Longrightarrow> x < y \<Longrightarrow> key (es ! (b + x)) \<noteq> key (es ! (b + y))"
    using assms(1,4) unfolding cluster_inv_def by blast
  have kk: "key (?es ! (b + j)) = (if j = r then k else key (es ! (b + j)))" for j
    using assms(2,3,6) by simp
  have nz: "key (?es ! (b + j)) \<noteq> 0" if "j < 4" for j
    using assms(4,5) that by (simp add: kk)
  show ?thesis
    unfolding cluster_inv_def
  proof (intro conjI allI impI)
    fix x y :: nat assume "x < 4" "y < 4" "x < y" "key (?es ! (b + x)) = 0"
    then show "key (?es ! (b + y)) = 0" using nz by blast
  next
    fix x y :: nat assume "x < 4" "y < 4" "x < y" "key (?es ! (b + x)) \<noteq> 0"
    then show "key (?es ! (b + x)) \<noteq> key (?es ! (b + y))"
      using assms(4) dis [of x y] by (auto simp: kk split: if_splits)
  next
    fix x :: nat assume "x < 4" "key (?es ! (b + x)) = 0"
    then show "?es ! (b + x) = TTEntry_zero" using nz by blast
  qed
qed


lemma key_TTEntry_new [simp]:
  "key (TTEntry_new k v t d m g) = k" "val (TTEntry_new k v t d m g) = v"
  "vtype (TTEntry_new k v t d m g) = t" "depth (TTEntry_new k v t d m g) = d"
  "move (TTEntry_new k v t d m g) = m" "gen (TTEntry_new k v t d m g) = g"
  by (simp_all add: TTEntry_new_def)

lemma store_total:
  assumes "tt_ok tt"
  shows "\<exists>tt'. store tt k v t d m = Inr tt'"
  using assms by (cases rule: store_cases [where k = k and v = v and t = t and d = d and m = m]) simp_all

lemma store_frame:
  assumes "tt_ok tt" "store tt k v t d m = Inr tt'"
  shows "tt_ok tt' \<and> size_tt tt' = size_tt tt \<and> generation tt' = generation tt
     \<and> length (entries tt') = length (entries tt)"
  using assms(1)
proof (cases rule: store_cases [where k = k and v = v and t = t and d = d and m = m])
  case (aborted i)
  with assms show ?thesis by simp
next
  case (written i)
  with assms show ?thesis by (auto simp: tt_ok_def)
next
  case (evicted r)
  with assms show ?thesis by (auto simp: tt_ok_def)
qed

lemma store_tt_inv:
  assumes "tt_inv tt" "k \<noteq> 0" "store tt k v t d m = Inr tt'"
  shows "tt_inv tt'"
proof -
  have ok: "tt_ok tt" and ci: "\<And>c. c < unat (size_tt tt) \<Longrightarrow> cluster_inv (entries tt) (4 * c)"
    using assms(1) by (simp_all add: tt_inv_def)
  from first_entry_ok [OF ok, of k] obtain c0 where
    c0: "c0 < unat (size_tt tt)" "cluster_of tt k = 4 * c0"
    and inb: "cluster_of tt k + 3 < length (entries tt)" by blast
  note fr = store_frame [OF ok assms(3)]
  have upd: "tt_inv tt'"
    if tt': "entries tt' = (entries tt)[4 * c0 + i := e]" and i: "i < 4"
      and c: "cluster_inv ((entries tt)[4 * c0 + i := e]) (4 * c0)" for i e
    unfolding tt_inv_def
  proof (intro conjI allI impI)
    show "tt_ok tt'" using fr by simp
  next
    fix c assume "c < unat (size_tt tt')"
    then have "c < unat (size_tt tt)" using fr by simp
    then show "cluster_inv (entries tt') (4 * c)"
      using ci [of c] c cluster_inv_other [of c c0 i "entries tt" e] i
      by (cases "c = c0") (simp_all add: tt')
  qed
  from ok show ?thesis
  proof (cases rule: store_cases [where k = k and v = v and t = t and d = d and m = m])
    case (aborted i)
    with assms show ?thesis by simp
  next
    case (written i)
    let ?e = "TTEntry_new k v t d (if m = MOVE_NONE then move (entries tt ! (cluster_of tt k + i)) else m)
       (generation tt)"
    have tt': "entries tt' = (entries tt)[4 * c0 + i := ?e]"
      using written(5) assms(3) c0(2) by auto
    from written(3) have "cluster_inv ((entries tt)[4 * c0 + i := ?e]) (4 * c0)"
    proof
      assume "key (entries tt ! (cluster_of tt k + i)) = 0"
      then show ?thesis
        using ci [OF c0(1)] written(1,2) inb assms(2) unfolding c0(2)
        by (intro cluster_inv_fill [where k = k]) simp_all
    next
      assume "key (entries tt ! (cluster_of tt k + i)) = k"
      then show ?thesis
        using ci [OF c0(1)] written(1) inb assms(2) unfolding c0(2)
        by (intro cluster_inv_same_key [where k = k]) simp_all
    qed
    with tt' written(1) show ?thesis by (rule upd)
  next
    case (evicted r)
    let ?e = "TTEntry_new k v t d m (generation tt)"
    have r: "r < 4" using evicted(2) by (simp add: victim_of_def)
    have tt': "entries tt' = (entries tt)[4 * c0 + r := ?e]"
      using evicted(3) assms(3) c0(2) by auto
    have "cluster_inv ((entries tt)[4 * c0 + r := ?e]) (4 * c0)"
      using ci [OF c0(1)] evicted(1) r inb assms(2) unfolding c0(2)
      by (intro cluster_inv_evict [where k = k]) simp_all
    with tt' r show ?thesis by (rule upd)
  qed
qed

lemma new_search_tt_inv: "tt_inv tt \<Longrightarrow> tt_inv (new_search tt)"
  by (simp add: tt_inv_def tt_ok_def new_search_def)

lemma unat_size_times_4:
  assumes "tt_ok tt"
  shows "unat (size_tt tt * 4) = 4 * unat (size_tt tt)"
proof -
  have "unat (size_tt tt) \<le> 2 ^ 29" using assms by (simp add: tt_ok_def)
  then have "unat (size_tt tt) * 4 < 2 ^ 32" by simp
  then show ?thesis by (simp add: unat_word_ariths)
qed

lemma clear_result:
  assumes "tt_ok tt"
  shows "clear tt = Inr (tt\<lparr>entries := replicate (4 * unat (size_tt tt)) TTEntry_zero\<rparr>)"
  using assms unat_size_times_4 [OF assms] by (simp add: clear_def tt_ok_def)

lemma clear_tt_inv:
  assumes "tt_ok tt" "clear tt = Inr tt'"
  shows "tt_inv tt'"
proof -
  have tt': "tt' = tt\<lparr>entries := replicate (4 * unat (size_tt tt)) TTEntry_zero\<rparr>"
    using assms clear_result [OF assms(1)] by simp
  have "cluster_inv (replicate (4 * unat (size_tt tt)) TTEntry_zero) (4 * c)"
    if "c < unat (size_tt tt)" for c
  proof -
    have "replicate (4 * unat (size_tt tt)) TTEntry_zero ! (4 * c + j) = TTEntry_zero" if "j < 4" for j
      using that \<open>c < unat (size_tt tt)\<close> by (intro nth_replicate) arith
    then show ?thesis by (simp add: cluster_inv_def TTEntry_zero_def)
  qed
  then show ?thesis using assms(1) by (simp add: tt_inv_def tt_ok_def tt')
qed

lemma insert_pv_tt_inv:
  assumes "tt_inv tt" "0 \<notin> set (pv_keys ext p pv)" "insert_pv ext tt p pv = Inr tt'"
  shows "tt_inv tt'"
  using assms
proof (induction pv arbitrary: tt p)
  case Nil
  then show ?case by simp
next
  case (Cons mv pv)
  show ?case
  proof (cases "mv = MOVE_NONE")
    case True
    with Cons.prems show ?thesis by simp
  next
    case False
    with Cons.prems(3) obtain t1 where
      st: "store tt (get_key ext p) (VALUE_NONE ext) VALUE_TYPE_NONE (- 127 * OnePly ext) mv = Inr t1"
      and rest: "insert_pv ext t1 (do_move ext p mv) pv = Inr tt'"
      by (auto split: sum.splits)
    have nz: "get_key ext p \<noteq> 0" using Cons.prems(2) False by auto
    from Cons.prems(1) nz st have "tt_inv t1" by (rule store_tt_inv)
    moreover have "0 \<notin> set (pv_keys ext (do_move ext p mv) pv)" using Cons.prems(2) False by auto
    ultimately show ?thesis using rest by (rule Cons.IH)
  qed
qed

lemma reachable_tt_inv: "reachable ext tt \<Longrightarrow> tt_inv tt"
proof (induction rule: reachable.induct)
  case (cleared tt tt')
  from cleared.hyps show ?case by (rule clear_tt_inv)
next
  case (stored tt posKey v t d m tt')
  from stored.IH stored.hyps(2,3) show ?case by (rule store_tt_inv)
next
  case (pv_inserted tt p pv tt')
  from pv_inserted.IH pv_inserted.hyps(2,3) show ?case by (rule insert_pv_tt_inv)
next
  case (searched tt)
  from searched.IH show ?case by (rule new_search_tt_inv)
qed

subsection \<open>Retrieving what was stored\<close>

lemma retrieve_cases [consumes 1, case_names found missing]:
  assumes "tt_ok tt"
  obtains (found) i where "i < 4"
      "\<forall>l<i. key (entries tt ! (cluster_of tt k + l)) \<noteq> k"
      "key (entries tt ! (cluster_of tt k + i)) = k"
      "retrieve tt k = Inr (Some (entries tt ! (cluster_of tt k + i)))"
    | (missing) "\<forall>l<4. key (entries tt ! (cluster_of tt k + l)) \<noteq> k"
      "retrieve tt k = Inr None"
proof -
  define h where "h = (\<lambda>i. i < 4 \<and> key (entries tt ! (cluster_of tt k + i)) = k)"
  show ?thesis
  proof (cases "\<exists>i. h i")
    case True
    define i where "i = Least h"
    from True have P: "h i" unfolding i_def by (rule LeastI_ex)
    have N: "\<not> h l" if "l < i" for l
      using that unfolding i_def by (rule not_less_Least)
    have i4: "i < 4" and hi: "key (entries tt ! (cluster_of tt k + i)) = k"
      using P by (simp_all add: h_def)
    have before: "\<forall>l<i. key (entries tt ! (cluster_of tt k + l)) \<noteq> k"
    proof (intro allI impI)
      fix l assume l: "l < i"
      then have "l < 4" using i4 by simp
      with N [OF l] show "key (entries tt ! (cluster_of tt k + l)) \<noteq> k"
        by (simp add: h_def)
    qed
    from i4 before hi retrieve_hit [OF assms i4 before hi] show ?thesis by (rule found)
  next
    case False
    then have none: "\<forall>l<4. key (entries tt ! (cluster_of tt k + l)) \<noteq> k"
      unfolding h_def by blast
    from none retrieve_miss [OF assms none] show ?thesis by (rule missing)
  qed
qed

text \<open>In a cluster that is in order, the slots before an occupied one are occupied.\<close>

lemma cluster_inv_before:
  assumes "cluster_inv es b" "i < 4" "key (es ! (b + i)) \<noteq> 0" "l < i"
  shows "key (es ! (b + l)) \<noteq> 0"
proof -
  have "l < 4" using assms(2,4) by simp
  then show ?thesis using assms unfolding cluster_inv_def by metis
qed

lemma cluster_inv_distinct:
  assumes "cluster_inv es b" "i < 4" "j < 4" "i \<noteq> j" "key (es ! (b + i)) \<noteq> 0"
  shows "key (es ! (b + i)) \<noteq> key (es ! (b + j))"
proof (cases i j rule: linorder_cases)
  case less
  then show ?thesis using assms unfolding cluster_inv_def by metis
next
  case equal
  then show ?thesis using assms by simp
next
  case greater
  have "key (es ! (b + j)) \<noteq> 0"
    using assms(1,2,5) greater by (rule cluster_inv_before)
  then have "key (es ! (b + j)) \<noteq> key (es ! (b + i))"
    using assms(1,2,3) greater unfolding cluster_inv_def by metis
  then show ?thesis by simp
qed

lemma cluster_inv_zero:
  assumes "cluster_inv es b" "i < 4" "key (es ! (b + i)) = 0"
  shows "es ! (b + i) = TTEntry_zero"
  using assms unfolding cluster_inv_def by metis

lemma cluster_inv_after:
  assumes "cluster_inv es b" "i < 4" "key (es ! (b + i)) = 0" "i < l" "l < 4"
  shows "key (es ! (b + l)) = 0"
  using assms unfolding cluster_inv_def by metis

lemma tt_inv_cluster:
  assumes "tt_inv tt"
  shows "tt_ok tt" "cluster_inv (entries tt) (cluster_of tt k)"
proof -
  show ok: "tt_ok tt" using assms by (simp add: tt_inv_def)
  from first_entry_ok [OF ok, of k] obtain c where "c < unat (size_tt tt)" "cluster_of tt k = 4 * c"
    by blast
  then show "cluster_inv (entries tt) (cluster_of tt k)" using assms by (simp add: tt_inv_def)
qed

text \<open>
  In a table whose clusters are in order, the slot that \<open>retrieve\<close> finds for a non-zero
  signature is the slot at which the scan of \<open>store\<close> stops.
\<close>

lemma found_is_scan_stop:
  assumes "tt_inv tt" "k \<noteq> 0" "i < 4" "key (entries tt ! (cluster_of tt k + i)) = k"
  shows "\<forall>l<i. key (entries tt ! (cluster_of tt k + l)) \<noteq> 0 \<and> key (entries tt ! (cluster_of tt k + l)) \<noteq> k"
proof (intro allI impI)
  fix l assume l: "l < i"
  note ci = tt_inv_cluster(2) [OF assms(1), of k]
  have nz: "key (entries tt ! (cluster_of tt k + i)) \<noteq> 0" using assms(2,4) by simp
  have "l < 4" "l \<noteq> i" using l assms(3) by simp_all
  from cluster_inv_distinct [OF ci assms(3) \<open>l < 4\<close> _ nz] this(2)
  have "key (entries tt ! (cluster_of tt k + l)) \<noteq> k" using assms(4) by auto
  moreover have "key (entries tt ! (cluster_of tt k + l)) \<noteq> 0"
    using ci assms(3) nz l by (rule cluster_inv_before)
  ultimately show "key (entries tt ! (cluster_of tt k + l)) \<noteq> 0 \<and> key (entries tt ! (cluster_of tt k + l)) \<noteq> k"
    by simp
qed

lemma store_existing:
  assumes "tt_inv tt" "k \<noteq> 0" "retrieve tt k = Inr (Some old)"
  shows "\<exists>i<4. entries tt ! (cluster_of tt k + i) = old \<and> key old = k \<and>
     store tt k v t d m =
       (if t = VALUE_TYPE_EVAL then Inr tt
        else Inr (tt\<lparr>entries := (entries tt)[cluster_of tt k + i := TTEntry_new k v t d
             (if m = MOVE_NONE then move old else m) (generation tt)]\<rparr>))"
proof -
  note ok = tt_inv_cluster(1) [OF assms(1)]
  from ok show ?thesis
  proof (cases rule: retrieve_cases [where k = k])
    case (found i)
    then have old: "entries tt ! (cluster_of tt k + i) = old" using assms(3) by simp
    note before = found_is_scan_stop [OF assms(1,2) found(1,3)]
    have "store tt k v t d m =
       (if t = VALUE_TYPE_EVAL then Inr tt
        else Inr (tt\<lparr>entries := (entries tt)[cluster_of tt k + i := TTEntry_new k v t d
             (if m = MOVE_NONE then move old else m) (generation tt)]\<rparr>))"
      using store_hit [OF ok found(1) before, of v t d m] found(3) assms(2) old by simp
    with old found(1,3) show ?thesis by blast
  next
    case missing
    with assms(3) show ?thesis by simp
  qed
qed

lemma cluster_of_cong: "size_tt tt' = size_tt tt \<Longrightarrow> cluster_of tt' k = cluster_of tt k"
  by (simp add: cluster_of_def)

lemma retrieve_updated:
  assumes "tt_ok tt" "i < 4"
    and "\<forall>l<i. key (entries tt ! (cluster_of tt k + l)) \<noteq> k"
    and "key e = k" "size_tt tt' = size_tt tt"
    and "entries tt' = (entries tt)[cluster_of tt k + i := e]"
  shows "retrieve tt' k = Inr (Some e)"
proof -
  have ok': "tt_ok tt'" using assms(1,5,6) by (simp add: tt_ok_def)
  have c: "cluster_of tt' k = cluster_of tt k" using assms(5) by (rule cluster_of_cong)
  have inb: "cluster_of tt k + 3 < length (entries tt)"
    using first_entry_ok [OF assms(1), of k] by simp
  have at_i: "entries tt' ! (cluster_of tt' k + i) = e"
    using inb assms(2) by (simp add: c assms(6))
  have "\<forall>l<i. key (entries tt' ! (cluster_of tt' k + l)) \<noteq> k"
    using assms(3) by (simp add: c assms(6))
  moreover have "key (entries tt' ! (cluster_of tt' k + i)) = k"
    using at_i assms(4) by simp
  ultimately have "retrieve tt' k = Inr (Some (entries tt' ! (cluster_of tt' k + i)))"
    using ok' assms(2) by (intro retrieve_hit) 
  then show ?thesis using at_i by simp
qed

lemma store_retrieve:
  assumes "tt_inv tt" "k \<noteq> 0"
    and "\<not> (t = VALUE_TYPE_EVAL \<and> (\<exists>old. retrieve tt k = Inr (Some old)))"
  shows "\<exists>tt'. store tt k v t d m = Inr tt' \<and>
     retrieve tt' k = Inr (Some (TTEntry_new k v t d
        (if m \<noteq> MOVE_NONE then m
         else case retrieve tt k of Inr (Some old) \<Rightarrow> move old | _ \<Rightarrow> MOVE_NONE)
        (generation tt)))"
proof -
  note ok = tt_inv_cluster(1) [OF assms(1)]
  note ci = tt_inv_cluster(2) [OF assms(1), of k]
  from ok show ?thesis
  proof (cases rule: retrieve_cases [where k = k])
    case (found i)
    with assms(3) have t: "t \<noteq> VALUE_TYPE_EVAL" by auto
    let ?old = "entries tt ! (cluster_of tt k + i)"
    let ?e = "TTEntry_new k v t d (if m = MOVE_NONE then move ?old else m) (generation tt)"
    from store_existing [OF assms(1,2) found(4), of v t d m] t
    obtain j where j: "j < 4" "entries tt ! (cluster_of tt k + j) = ?old"
      and st: "store tt k v t d m = Inr (tt\<lparr>entries := (entries tt)[cluster_of tt k + j := ?e]\<rparr>)"
      by auto
    have "j = i"
    proof (rule ccontr)
      assume "j \<noteq> i"
      then have "key (entries tt ! (cluster_of tt k + j)) \<noteq> key ?old"
        using cluster_inv_distinct [OF ci j(1) found(1)] j(2) found(3) assms(2) by auto
      with j(2) show False by simp
    qed
    have "retrieve (tt\<lparr>entries := (entries tt)[cluster_of tt k + i := ?e]\<rparr>) k = Inr (Some ?e)"
      using ok found(1,2) by (rule retrieve_updated) simp_all
    with st \<open>j = i\<close> found(4) show ?thesis by (auto split: if_splits)
  next
    case missing
    note miss = missing
    from ok show ?thesis
    proof (cases rule: store_cases [where k = k and v = v and t = t and d = d and m = m])
      case (aborted i)
      with miss(1) show ?thesis by auto
    next
      case (written i)
      let ?old = "entries tt ! (cluster_of tt k + i)"
      let ?e = "TTEntry_new k v t d (if m = MOVE_NONE then move ?old else m) (generation tt)"
      have "key ?old = 0" using written(3) miss(1) written(1) by auto
      then have "?old = TTEntry_zero" using ci written(1) by (intro cluster_inv_zero)
      then have mv: "move ?old = MOVE_NONE" by (simp add: TTEntry_zero_def MOVE_NONE_def)
      have "\<forall>l<i. key (entries tt ! (cluster_of tt k + l)) \<noteq> k" using written(2) by simp
      with ok written(1)
      have "retrieve (tt\<lparr>entries := (entries tt)[cluster_of tt k + i := ?e]\<rparr>) k = Inr (Some ?e)"
        by (rule retrieve_updated) simp_all
      with written(5) miss(2) mv show ?thesis by (auto split: if_splits)
    next
      case (evicted r)
      let ?e = "TTEntry_new k v t d m (generation tt)"
      have r: "r < 4" using evicted(2) by (simp add: victim_of_def)
      have "\<forall>l<r. key (entries tt ! (cluster_of tt k + l)) \<noteq> k" using evicted(1) r by simp
      with ok r
      have "retrieve (tt\<lparr>entries := (entries tt)[cluster_of tt k + r := ?e],
               writes := writes tt + 1\<rparr>) k = Inr (Some ?e)"
        by (rule retrieve_updated) simp_all
      with evicted(3) miss(2) show ?thesis by (auto split: if_splits)
    qed
  qed
qed

lemma store_keeps_occupied:
  assumes "tt_ok tt" "k \<noteq> 0" "store tt k v t d m = Inr tt'"
    and "i < length (entries tt)" "key (entries tt ! i) \<noteq> 0"
  shows "key (entries tt' ! i) \<noteq> 0"
proof -
  have upd: "key ((entries tt)[p := e] ! i) \<noteq> 0" if "key e = k" for p e
    using that assms(2,4,5) by (cases "p = i") simp_all
  from assms(1) show ?thesis
  proof (cases rule: store_cases [where k = k and v = v and t = t and d = d and m = m])
    case (aborted j)
    with assms show ?thesis by simp
  next
    case (written j)
    with assms(3) upd show ?thesis by auto
  next
    case (evicted r)
    with assms(3) upd show ?thesis by auto
  qed
qed

lemma insert_pv_keeps_occupied:
  assumes "tt_ok tt" "0 \<notin> set (pv_keys ext p pv)" "insert_pv ext tt p pv = Inr tt'"
    and "i < length (entries tt)" "key (entries tt ! i) \<noteq> 0"
  shows "key (entries tt' ! i) \<noteq> 0"
  using assms
proof (induction pv arbitrary: tt p)
  case Nil
  then show ?case by simp
next
  case (Cons mv pv)
  show ?case
  proof (cases "mv = MOVE_NONE")
    case True
    with Cons.prems show ?thesis by simp
  next
    case False
    with Cons.prems(3) obtain t1 where
      st: "store tt (get_key ext p) (VALUE_NONE ext) VALUE_TYPE_NONE (- 127 * OnePly ext) mv = Inr t1"
      and rest: "insert_pv ext t1 (do_move ext p mv) pv = Inr tt'"
      by (auto split: sum.splits)
    have nz: "get_key ext p \<noteq> 0" using Cons.prems(2) False by auto
    note fr = store_frame [OF Cons.prems(1) st]
    have k1: "key (entries t1 ! i) \<noteq> 0"
      using Cons.prems(1) nz st Cons.prems(4,5) by (rule store_keeps_occupied)
    have "0 \<notin> set (pv_keys ext (do_move ext p mv) pv)" using Cons.prems(2) False by auto
    moreover have "tt_ok t1" "i < length (entries t1)" using fr Cons.prems(4) by simp_all
    ultimately show ?thesis using rest k1 Cons.IH [of t1 "do_move ext p mv"] by blast
  qed
qed

lemma insert_pv_store_all:
  assumes "MOVE_NONE \<in> set pv"
  shows "insert_pv ext tt p pv =
     store_all ext tt (zip (pv_keys ext p pv) (takeWhile (\<lambda>mv. mv \<noteq> MOVE_NONE) pv))
     \<and> length (pv_keys ext p pv) = length (takeWhile (\<lambda>mv. mv \<noteq> MOVE_NONE) pv)"
  using assms
proof (induction pv arbitrary: tt p)
  case Nil
  then show ?case by simp
next
  case (Cons mv pv)
  show ?case
  proof (cases "mv = MOVE_NONE")
    case True
    then show ?thesis by simp
  next
    case False
    with Cons.prems have "MOVE_NONE \<in> set pv" by auto
    note IH = Cons.IH [OF this]
    show ?thesis using False IH by (auto split: sum.splits)
  qed
qed

subsection \<open>The example tables\<close>

lemma cluster_of_ex: "cluster_of table_empty 5 = 4" "cluster_of table_one 5 = 4" "cluster_of table_full 21 = 4"
  by (simp_all add: cluster_of_def table_empty_def table_one_def table_full_def)

lemma tt_ok_ex: "tt_ok table_empty" "tt_ok table_one" "tt_ok table_full"
  by (simp_all add: tt_ok_def table_empty_def table_one_def table_full_def)

lemma clear_ex: "clear table_empty = Inr table_empty"
  by (simp add: clear_def table_empty_def)

lemma store_ex: "store table_empty 5 100 VALUE_TYPE_EXACT 3 7 = Inr table_one"
  by (simp add: store_def first_entry_def store_loop.simps entry_at_def write_at_def
      table_empty_def table_one_def TTEntry_zero_def MOVE_NONE_def)

lemma retrieve_ex: "retrieve table_one 5 = Inr (Some (TTEntry_new 5 100 VALUE_TYPE_EXACT 3 7 0))"
  by (simp add: retrieve_def first_entry_def retrieve_loop.simps entry_at_def table_one_def)

lemma reachable_ex: "reachable ext_ex table_one"
  by (rule reachable.stored [OF reachable.cleared [OF tt_ok_ex(1) clear_ex] _ store_ex]) simp

lemma less_4_cases: "l < 4 \<longleftrightarrow> l = 0 \<or> l = 1 \<or> l = 2 \<or> l = (3::nat)"
  by arith

lemma table_full_slots:
  "entries table_full ! 4 = TTEntry_new 5 100 VALUE_TYPE_EXACT 5 7 1"
  "entries table_full ! 5 = TTEntry_new 9 0 VALUE_TYPE_UPPER 1 0 0"
  "entries table_full ! 6 = TTEntry_new 13 0 VALUE_TYPE_UPPER 1 0 0"
  "entries table_full ! 7 = TTEntry_new 17 0 VALUE_TYPE_UPPER 1 0 0"
  "generation table_full = 1"
  by (simp_all add: table_full_def nth_append)

lemma store_full_ex:
  "store table_full 21 1 VALUE_TYPE_LOWER 2 3 =
     Inr (table_full\<lparr>entries := (entries table_full)[5 := TTEntry_new 21 1 VALUE_TYPE_LOWER 2 3 1],
           writes := 1\<rparr>)"
  by (simp add: store_def first_entry_def store_loop.simps entry_at_def write_at_def
      table_full_def TTEntry_new_def TTEntry_zero_def nth_append)

lemma retrieve_empty_ex: "retrieve table_empty 5 = Inr None"
  by (simp add: retrieve_def first_entry_def retrieve_loop.simps entry_at_def table_empty_def
      TTEntry_zero_def)

lemma reachable_empty_ex: "reachable ext_ex table_empty"
  by (rule reachable.cleared [OF tt_ok_ex(1) clear_ex])

lemma store_over_ex:
  "store table_one 5 (- 20) VALUE_TYPE_LOWER 6 MOVE_NONE =
     Inr (table_one\<lparr>entries := (entries table_one)[4 := TTEntry_new 5 (- 20) VALUE_TYPE_LOWER 6 7 0]\<rparr>)"
  by (simp add: store_def first_entry_def store_loop.simps entry_at_def write_at_def
      table_one_def TTEntry_new_def MOVE_NONE_def)

subsection \<open>Counting the slots that hold a signature\<close>

lemma upt_4: "[0..<4] = [0, 1, 2, 3]"
  by (simp add: upt_rec)

lemma at_most_one_match:
  assumes "\<And>i j. i < 4 \<Longrightarrow> j < 4 \<Longrightarrow> i \<noteq> j \<Longrightarrow> P i \<Longrightarrow> \<not> P j"
  shows "length (filter P [0..<4]) \<le> 1"
  using assms [of 0 1] assms [of 0 2] assms [of 0 3] assms [of 1 2] assms [of 1 3] assms [of 2 3]
  by (simp add: upt_4)

subsection \<open>The loop of \<open>set_size\<close>\<close>

lemma unat_ucast_32_64: "unat (ucast (x :: 32 word) :: 64 word) = unat x"
proof -
  have "unat x < 2 ^ 32" using unsigned_less [of x] by simp
  then have "unat x < 2 ^ 64" by (rule order_less_trans) simp
  then show ?thesis by (simp add: unsigned_ucast_eq take_bit_nat_eq_self_iff)
qed

lemma set_size_cond:
  fixes newSize mb :: "32 word" and sz :: "64 word"
  assumes "unat newSize * 8 < 2 ^ 32" "unat mb < 4096" "unat sz \<le> 1024"
  shows "(ucast ((2 * newSize) * 4) :: 64 word) * sz \<le> ucast (push_bit 20 mb :: 32 word)
     \<longleftrightarrow> unat newSize * 8 * unat sz \<le> unat mb * 2 ^ 20"
proof -
  define x where "x = (2 * newSize) * 4"
  have a: "unat x = unat newSize * 8"
    using assms(1) by (simp add: x_def unat_word_ariths)
  have "unat x * unat sz \<le> unat x * 1024"
    using assms(3) by (intro mult_le_mono2)
  also have "\<dots> < 2 ^ 32 * 1024" using assms(1) by (simp add: a)
  also have "\<dots> \<le> (2::nat) ^ 64" by simp
  finally have "unat ((ucast x :: 64 word) * sz) = unat x * unat sz"
    by (simp add: unat_word_ariths [where 'a = 64] unat_ucast_32_64)
  then have b: "unat ((ucast x :: 64 word) * sz) = unat newSize * 8 * unat sz"
    by (simp only: a)
  have "unat mb * 2 ^ 20 < 4096 * 2 ^ 20" using assms(2) by simp
  then have "unat mb * 2 ^ 20 < 2 ^ 32" by simp
  then have c: "unat (push_bit 20 mb :: 32 word) = unat mb * 2 ^ 20"
    by (simp add: push_bit_eq_mult unat_word_ariths)
  show ?thesis
    unfolding x_def [symmetric] by (simp only: word_le_nat_alt b unat_ucast_32_64 c)
qed

lemma set_size_loop_result:
  fixes newSize mb :: "32 word" and sz :: "64 word"
  assumes "unat mb < 4096" "2 \<le> unat sz" "unat sz \<le> 1024"
    and "unat newSize * 4 * unat sz \<le> unat mb * 2 ^ 20" "0 < unat newSize"
  shows "\<exists>j. set_size_loop sz mb newSize = Some (newSize * 2 ^ j)
     \<and> unat (newSize * 2 ^ j) = unat newSize * 2 ^ j
     \<and> unat newSize * 2 ^ j * 4 * unat sz \<le> unat mb * 2 ^ 20
     \<and> \<not> unat newSize * 2 ^ j * 8 * unat sz \<le> unat mb * 2 ^ 20"
  using assms(4,5)
proof (induction "unat mb * 2 ^ 20 - unat newSize" arbitrary: newSize rule: less_induct)
  case less
  have M: "unat mb * 2 ^ 20 < 2 ^ 32"
  proof -
    have "unat mb * 2 ^ 20 < 4096 * 2 ^ 20" using assms(1) by simp
    then show ?thesis by simp
  qed
  have "unat newSize * 8 \<le> unat newSize * 4 * unat sz" using assms(2) by simp
  with less.prems(1) M have small: "unat newSize * 8 < 2 ^ 32" by linarith
  note cond = set_size_cond [OF small assms(1,3)]
  show ?case
  proof (cases "unat newSize * 8 * unat sz \<le> unat mb * 2 ^ 20")
    case False
    then have "set_size_loop sz mb newSize = Some newSize"
      by (subst set_size_loop.simps) (simp only: cond if_False)
    with False less.prems(1) show ?thesis by (intro exI [of _ 0]) simp
  next
    case True
    then have st: "set_size_loop sz mb newSize = set_size_loop sz mb (newSize * 2)"
      by (subst set_size_loop.simps) (simp only: cond if_True)
    have u2: "unat (newSize * 2) = unat newSize * 2"
      using small by (simp add: unat_word_ariths)
    have fits: "unat (newSize * 2) * 4 * unat sz \<le> unat mb * 2 ^ 20"
      using True by (simp add: u2 mult.commute mult.left_commute)
    have "unat newSize * 2 \<le> unat newSize * 8 * unat sz" using assms(2) by simp
    with True have "unat newSize * 2 \<le> unat mb * 2 ^ 20" by linarith
    then have dec: "unat mb * 2 ^ 20 - unat (newSize * 2) < unat mb * 2 ^ 20 - unat newSize"
      using less.prems(2) by (simp add: u2)
    have pos: "0 < unat (newSize * 2)" using less.prems(2) by (simp add: u2)
    from less.hyps [OF dec fits pos] obtain j where
      j: "set_size_loop sz mb (newSize * 2) = Some (newSize * 2 * 2 ^ j)"
        "unat (newSize * 2 * 2 ^ j) = unat (newSize * 2) * 2 ^ j"
        "unat (newSize * 2) * 2 ^ j * 4 * unat sz \<le> unat mb * 2 ^ 20"
        "\<not> unat (newSize * 2) * 2 ^ j * 8 * unat sz \<le> unat mb * 2 ^ 20"
      by blast
    have e: "newSize * 2 * 2 ^ j = newSize * 2 ^ Suc j" by simp
    have n: "unat (newSize * 2) * 2 ^ j = unat newSize * 2 ^ Suc j" by (simp add: u2)
    from j show ?thesis
      unfolding st e n by (intro exI [of _ "Suc j"]) simp
  qed
qed


lemma retrieve_cleared:
  assumes "tt_ok tt" "entries tt = replicate (4 * unat (size_tt tt)) TTEntry_zero" "S \<noteq> 0"
  shows "retrieve tt S = Inr None"
proof (rule retrieve_miss [OF assms(1)], intro allI impI)
  fix l :: nat assume "l < 4"
  moreover have "cluster_of tt S + 3 < length (entries tt)"
    using first_entry_ok [OF assms(1), of S] by simp
  ultimately have "entries tt ! (cluster_of tt S + l) = TTEntry_zero"
    unfolding assms(2) by (intro nth_replicate) simp
  then show "key (entries tt ! (cluster_of tt S + l)) \<noteq> S"
    using assms(3) by (simp add: TTEntry_zero_def)
qed

lemma pow2_fits_mono:
  fixes s M :: nat
  assumes "\<not> 2 ^ Suc k * 4 * s \<le> M" "2 ^ j * 4 * s \<le> M"
  shows "j \<le> k"
proof (rule ccontr)
  assume "\<not> j \<le> k"
  then have "Suc k \<le> j" by simp
  then have "(2::nat) ^ Suc k \<le> 2 ^ j" by (intro power_increasing) simp_all
  then have "(2::nat) ^ Suc k * 4 \<le> 2 ^ j * 4" by (rule mult_le_mono1)
  then have "(2::nat) ^ Suc k * 4 * s \<le> 2 ^ j * 4 * s" by (rule mult_le_mono1)
  from this assms(2) have "2 ^ Suc k * 4 * s \<le> M" by (rule order_trans)
  with assms(1) show False by contradiction
qed

text \<open>
  The run behind the 4-megabyte example, and the size that \<open>set_size\<close> computes for 4096
  megabytes, the largest size its assertion admits: \<open>4096 << 20\<close> wraps to 0 in
  \<^verbatim>\<open>unsigned\<close>, the loop stops at once, and the table gets the floor of 1024 clusters.
\<close>

lemma set_size_loop_4mb: "set_size_loop 16 4 1024 = Some 65536"
  by (simp add: set_size_loop.simps)

lemma set_size_new_4mb: "set_size 16 True TranspositionTable_new 4 = Some (Inr table_4mb_empty)"
  by (simp add: set_size_def set_size_loop_4mb TranspositionTable_new_def clear_def table_4mb_empty_def)

lemma store_4mb: "store table_4mb_empty 1 10 VALUE_TYPE_EXACT 3 7 = Inr table_4mb"
  by (simp add: store_def first_entry_def store_loop.simps entry_at_def write_at_def
      table_4mb_empty_def table_4mb_def TTEntry_zero_def MOVE_NONE_def)

lemma retrieve_4mb: "retrieve table_4mb 1 = Inr (Some (TTEntry_new 1 10 VALUE_TYPE_EXACT 3 7 0))"
  by (simp add: retrieve_def first_entry_def retrieve_loop.simps entry_at_def table_4mb_def)

lemma set_size_same_4mb: "set_size 16 True table_4mb 4 = Some (Inr table_4mb)"
  by (simp add: set_size_def set_size_loop_4mb table_4mb_def)

lemma set_size_loop_4096: "set_size_loop 16 4096 1024 = Some 1024"
  by (simp add: set_size_loop.simps)

lemma set_size_4096_wraps:
  "set_size 16 True TranspositionTable_new 4096 =
     Some (Inr \<lparr>size_tt = 1024, writes = 0, entries = replicate 4096 TTEntry_zero, generation = 0\<rparr>)"
  by (simp add: set_size_def set_size_loop_4096 TranspositionTable_new_def clear_def)

subsection \<open>The occupancy estimate without writes, and on a table never sized\<close>

lemma rounding_ok_exact: "rounding_ok exact_ops"
  by (simp add: rounding_ok_def exact_ops_def mono_def)

lemma full_unsized:
  assumes "rnd ops 0 = 0" "size_tt tt = 0"
  shows "full ops tt = Inl NotANumber"
  using assms by (simp add: full_def)

lemma full_no_writes:
  assumes "rounding_ok ops" "size_tt tt \<noteq> 0" "writes tt = 0"
  shows "full ops tt = Inr 0"
proof -
  let ?r = "rnd ops"
  have m: "\<And>x y. x \<le> y \<Longrightarrow> ?r x \<le> ?r y" and r0: "?r 0 = 0" and r14: "?r (1 / 4) = 1 / 4"
    and r34: "?r (3 / 4) = 3 / 4" and r4: "?r 4 = 4"
    using assms(1) by (simp_all add: rounding_ok_def mono_def)
  define n where "n = real (unat (size_tt tt))"
  have "0 < unat (size_tt tt)" using assms(2) by (simp add: unat_gt_0)
  then have "1 \<le> unat (size_tt tt)" by simp
  then have "real 1 \<le> real (unat (size_tt tt))" by (rule of_nat_mono)
  then have n1: "1 \<le> n" by (simp only: n_def of_nat_1)
  define a where "a = ?r (n * 4)"
  have "?r 4 \<le> ?r (n * 4)" using n1 by (intro m) simp
  then have a4: "4 \<le> a" by (simp add: a_def r4)
  define q where "q = ?r (1 / a)"
  have "1 / a \<le> 1 / 4" using a4 by (simp add: field_simps)
  then have "?r (1 / a) \<le> ?r (1 / 4)" by (rule m)
  then have q14: "q \<le> 1 / 4" by (simp add: q_def r14)
  define x where "x = ?r (1 - q)"
  have "3 / 4 \<le> 1 - q" using q14 by simp
  then have "?r (3 / 4) \<le> ?r (1 - q)" by (rule m)
  then have x34: "3 / 4 \<le> x" by (simp add: x_def r34)
  then have xpos: "0 < x" by simp
  have N: "fmul ?r n (Finite 4.0) = Finite a" by (simp add: a_def)
  have Q: "fdiv ?r 1.0 (Finite a) = Finite q" using a4 by (simp add: q_def)
  have X: "fsub ?r 1.0 (Finite q) = Finite x" by (simp add: x_def)
  have L: "dlog (flog ops) (Finite x) = Finite (flog ops x)" using xpos by simp
  have P: "fmul ?r (real (unat (writes tt))) (Finite (flog ops x)) = Finite 0"
    using assms(3) by (simp add: r0)
  have E: "dexp (fexp ops) (Finite 0) = Finite 1" by simp
  have S: "fsub ?r 1 (Finite 1) = Finite 0" by (simp add: r0)
  have M: "fmul ?r 1000 (Finite 0) = Finite 0" by (simp add: r0)
  have T: "to_int (Finite 0) = Inr 0" by (simp add: trunc_int_def)
  show ?thesis
    unfolding full_def Let_def n_def [symmetric] by (simp only: N Q X L P E S M T)
qed


lemma store_again_ex: "store table_one 5 1 VALUE_TYPE_EXACT 3 MOVE_NONE = Inr table_two"
  by (simp add: store_def first_entry_def store_loop.simps entry_at_def write_at_def
      table_one_def table_two_def TTEntry_new_def MOVE_NONE_def)

lemma store_eval_two_ex: "store table_two 5 2 VALUE_TYPE_EVAL 9 8 = Inr table_two"
  by (simp add: store_def first_entry_def store_loop.simps entry_at_def write_at_def
      table_two_def TTEntry_new_def MOVE_NONE_def)

lemma retrieve_two_ex: "retrieve table_two 5 = Inr (Some (TTEntry_new 5 1 VALUE_TYPE_EXACT 3 7 0))"
  by (simp add: retrieve_def first_entry_def retrieve_loop.simps entry_at_def table_two_def)

section \<open>Generation advance\<close>

text \<open>
  C7, in the form that holds of the code. Every call of \<open>new_search\<close> adds exactly 1 to the
  generation counter, wrapping at 8 bits, sets the write counter to zero and leaves the size
  and every stored entry as they were. On a table that has been sized (its size is not 0),
  under a rounding that is monotone and leaves 0, 1/4, 3/4 and 4 as they are, and whatever
  the library's \<^verbatim>\<open>log\<close> and \<^verbatim>\<open>exp\<close>, the occupancy reported right after it is 0.
\<close>

theorem new_search_effect:
  "generation (new_search tt) = generation tt + 1
   \<and> unat (generation (new_search tt)) = (unat (generation tt) + 1) mod 256
   \<and> writes (new_search tt) = 0
   \<and> entries (new_search tt) = entries tt
   \<and> size_tt (new_search tt) = size_tt tt
   \<and> (size_tt tt \<noteq> 0 \<longrightarrow> rounding_ok ops \<longrightarrow> full ops (new_search tt) = Inr 0)"
proof -
  have "full ops (new_search tt) = Inr 0" if "size_tt tt \<noteq> 0" "rounding_ok ops"
    using that by (intro full_no_writes) (simp_all add: new_search_def)
  then show ?thesis by (simp add: new_search_def unat_word_ariths)
qed

theorem new_search_effect_witness:
  "size_tt \<lparr>size_tt = 1, writes = 5, entries = replicate 4 TTEntry_zero, generation = 255\<rparr> \<noteq> 0
   \<and> rounding_ok exact_ops
   \<and> generation (new_search \<lparr>size_tt = 1, writes = 5, entries = replicate 4 TTEntry_zero, generation = 255\<rparr>) = 0
   \<and> writes (new_search \<lparr>size_tt = 1, writes = 5, entries = replicate 4 TTEntry_zero, generation = 255\<rparr>) = 0
   \<and> full exact_ops (new_search \<lparr>size_tt = 1, writes = 5, entries = replicate 4 TTEntry_zero, generation = 255\<rparr>) = Inr 0"
  using new_search_effect
    [of "\<lparr>size_tt = 1, writes = 5, entries = replicate 4 TTEntry_zero, generation = 255\<rparr>" exact_ops]
    rounding_ok_exact
  by simp

text \<open>
  C7 as stated fails on a table that was constructed and never sized: its size is 0, the
  division \<open>1.0 / N\<close> is by zero, the logarithm is of minus infinity, and the result is a
  NaN, which has no \<^verbatim>\<open>int\<close> value; the occupancy reported after \<open>new_search\<close> is not 0.
\<close>

theorem new_search_unsized_occupancy:
  "size_tt (new_search TranspositionTable_new) = 0
   \<and> writes (new_search TranspositionTable_new) = 0
   \<and> full exact_ops (new_search TranspositionTable_new) = Inl NotANumber
   \<and> full exact_ops (new_search TranspositionTable_new) \<noteq> Inr 0"
proof -
  have s: "size_tt (new_search TranspositionTable_new) = 0"
    and w: "writes (new_search TranspositionTable_new) = 0"
    by (simp_all add: new_search_def TranspositionTable_new_def)
  have "rnd exact_ops 0 = 0" by (simp add: exact_ops_def)
  from full_unsized [OF this s] s w show ?thesis by simp
qed

section \<open>Eviction\<close>

text \<open>
  C1. When all four slots of the cluster hold signatures other than the stored one, \<open>store\<close>
  overwrites one victim slot and counts a write. If some slot of the cluster is stale (tagged
  with another generation than the current one), the victim is stale and no stale slot has a
  smaller depth; so an entry of the current generation is never evicted while a stale one is
  kept. If no slot is stale, the victim has the least depth of the four. In the cluster with
  signature 5 at depth 5 in the current generation and three stale entries of depth 1, the
  victim is one of the three, not the entry of signature 5.
\<close>

theorem store_evicts_stale_shallow:
  assumes "tt_ok tt"
    and "\<forall>l<4. key (entries tt ! (cluster_of tt posKey + l)) \<noteq> 0
            \<and> key (entries tt ! (cluster_of tt posKey + l)) \<noteq> posKey"
  shows "\<exists>r<4.
     store tt posKey v t d m =
       Inr (tt\<lparr>entries := (entries tt)[cluster_of tt posKey + r :=
                   TTEntry_new posKey v t d m (generation tt)],
               writes := writes tt + 1\<rparr>)
     \<and> ((\<exists>j<4. stale tt (cluster_of tt posKey + j)) \<longrightarrow>
          stale tt (cluster_of tt posKey + r)
          \<and> (\<forall>j<4. stale tt (cluster_of tt posKey + j) \<longrightarrow>
                depth (entries tt ! (cluster_of tt posKey + r))
                  \<le> depth (entries tt ! (cluster_of tt posKey + j))))
     \<and> ((\<forall>j<4. \<not> stale tt (cluster_of tt posKey + j)) \<longrightarrow>
          (\<forall>j<4. depth (entries tt ! (cluster_of tt posKey + r))
                  \<le> depth (entries tt ! (cluster_of tt posKey + j))))"
proof -
  from store_evict [OF assms, of v t d m] obtain r where
    v: "victim_of tt (cluster_of tt posKey) 4 r"
    and st: "store tt posKey v t d m =
       Inr (tt\<lparr>entries := (entries tt)[cluster_of tt posKey + r :=
                   TTEntry_new posKey v t d m (generation tt)],
               writes := writes tt + 1\<rparr>)"
    by blast
  from v have "r < 4" by (simp add: victim_of_def)
  with v st show ?thesis unfolding victim_of_def by blast
qed

theorem store_evicts_stale_shallow_witness:
  "tt_ok table_full
   \<and> key (entries table_full ! (cluster_of table_full 21 + 0)) = 5
   \<and> key (entries table_full ! (cluster_of table_full 21 + 1)) = 9
   \<and> key (entries table_full ! (cluster_of table_full 21 + 2)) = 13
   \<and> key (entries table_full ! (cluster_of table_full 21 + 3)) = 17
   \<and> (\<exists>r<4. store table_full 21 1 VALUE_TYPE_LOWER 2 3 =
         Inr (table_full\<lparr>entries := (entries table_full)[4 + r := TTEntry_new 21 1 VALUE_TYPE_LOWER 2 3 1],
               writes := writes table_full + 1\<rparr>)
        \<and> r \<noteq> 0 \<and> depth (entries table_full ! (4 + r)) = 1)
   \<and> store table_full 21 1 VALUE_TYPE_LOWER 2 3 =
         Inr (table_full\<lparr>entries := (entries table_full)[5 := TTEntry_new 21 1 VALUE_TYPE_LOWER 2 3 1],
               writes := 1\<rparr>)"
proof -
  have keys: "key (entries table_full ! (cluster_of table_full 21 + 0)) = 5"
    "key (entries table_full ! (cluster_of table_full 21 + 1)) = 9"
    "key (entries table_full ! (cluster_of table_full 21 + 2)) = 13"
    "key (entries table_full ! (cluster_of table_full 21 + 3)) = 17"
    by (simp_all add: cluster_of_ex table_full_slots)
  have full: "\<forall>l<4. key (entries table_full ! (cluster_of table_full 21 + l)) \<noteq> 0
            \<and> key (entries table_full ! (cluster_of table_full 21 + l)) \<noteq> 21"
    by (simp add: cluster_of_ex less_4_cases table_full_slots)
  have s: "stale table_full (4 + j) \<longleftrightarrow> j \<noteq> 0" if "j < 4" for j
    using that by (auto simp: less_4_cases stale_def table_full_slots)
  from store_evicts_stale_shallow [OF tt_ok_ex(3) full, of 1 VALUE_TYPE_LOWER 2 3]
  obtain r where r: "r < 4"
    and st: "store table_full 21 1 VALUE_TYPE_LOWER 2 3 =
         Inr (table_full\<lparr>entries := (entries table_full)[4 + r := TTEntry_new 21 1 VALUE_TYPE_LOWER 2 3 1],
               writes := writes table_full + 1\<rparr>)"
    and v: "(\<exists>j<4. stale table_full (4 + j)) \<longrightarrow> stale table_full (4 + r)"
    unfolding cluster_of_ex table_full_slots(5) by blast
  have "stale table_full (4 + 1)" using s [of 1] by simp
  then have "stale table_full (4 + r)" using v by (metis one_less_numeral_iff semiring_norm(76))
  then have r0: "r \<noteq> 0" using s [OF r] by simp
  then have "depth (entries table_full ! (4 + r)) = 1"
    using r by (auto simp: less_4_cases table_full_slots)
  with r st r0 have "\<exists>r<4. store table_full 21 1 VALUE_TYPE_LOWER 2 3 =
         Inr (table_full\<lparr>entries := (entries table_full)[4 + r := TTEntry_new 21 1 VALUE_TYPE_LOWER 2 3 1],
               writes := writes table_full + 1\<rparr>)
        \<and> r \<noteq> 0 \<and> depth (entries table_full ! (4 + r)) = 1"
    by blast
  with tt_ok_ex(3) keys store_full_ex show ?thesis by (intro conjI)
qed

section \<open>Storing over an existing entry\<close>

text \<open>
  C2, in the form that holds of the code. In every reachable table, for a non-zero signature
  \<open>A\<close> that \<open>retrieve\<close> finds, a \<open>store\<close> of \<open>A\<close> with bound type VALUE_TYPE_EVAL
  returns the table as it was, so that \<open>retrieve\<close> still returns the same entry. In
  particular after \<open>store A v1 VALUE_TYPE_EXACT 3 m1\<close> a
  \<open>store A v2 VALUE_TYPE_EVAL 9 m2\<close> changes nothing and \<open>retrieve A\<close> returns value
  \<open>v1\<close>, bound VALUE_TYPE_EXACT and depth 3, with the move \<open>m1\<close> if that is a move, and
  for \<open>m1 = MOVE_NONE\<close> with the move of the entry for \<open>A\<close> that the first store found
  (MOVE_NONE if it found none).
\<close>

theorem store_eval_keeps_entry:
  assumes "reachable ext tt" "A \<noteq> 0"
  shows "(\<forall>e. retrieve tt A = Inr (Some e) \<longrightarrow>
            store tt A v VALUE_TYPE_EVAL d m = Inr tt)
     \<and> (\<exists>tt1 e. store tt A v1 VALUE_TYPE_EXACT 3 m1 = Inr tt1
            \<and> store tt1 A v2 VALUE_TYPE_EVAL 9 m2 = Inr tt1
            \<and> retrieve tt1 A = Inr (Some e)
            \<and> key e = A \<and> val e = v1 \<and> vtype e = VALUE_TYPE_EXACT \<and> depth e = 3
            \<and> move e = (if m1 \<noteq> MOVE_NONE then m1
                         else case retrieve tt A of Inr (Some old) \<Rightarrow> move old | _ \<Rightarrow> MOVE_NONE))"
proof -
  note inv = reachable_tt_inv [OF assms(1)]
  have eval: "store t0 A v' VALUE_TYPE_EVAL d' m' = Inr t0"
    if "tt_inv t0" "retrieve t0 A = Inr (Some e)" for t0 e v' d' m'
    using store_existing [OF that(1) assms(2) that(2), of v' VALUE_TYPE_EVAL d' m'] by auto
  let ?e = "TTEntry_new A v1 VALUE_TYPE_EXACT 3
        (if m1 \<noteq> MOVE_NONE then m1
         else case retrieve tt A of Inr (Some old) \<Rightarrow> move old | _ \<Rightarrow> MOVE_NONE)
        (generation tt)"
  from store_retrieve [OF inv assms(2), of VALUE_TYPE_EXACT v1 3 m1]
  obtain tt1 where st: "store tt A v1 VALUE_TYPE_EXACT 3 m1 = Inr tt1"
    and re: "retrieve tt1 A = Inr (Some ?e)"
    by auto
  have inv1: "tt_inv tt1" using inv assms(2) st by (rule store_tt_inv)
  have "store tt1 A v2 VALUE_TYPE_EVAL 9 m2 = Inr tt1" using inv1 re by (rule eval)
  with st re have "\<exists>tt1 e. store tt A v1 VALUE_TYPE_EXACT 3 m1 = Inr tt1
            \<and> store tt1 A v2 VALUE_TYPE_EVAL 9 m2 = Inr tt1
            \<and> retrieve tt1 A = Inr (Some e)
            \<and> key e = A \<and> val e = v1 \<and> vtype e = VALUE_TYPE_EXACT \<and> depth e = 3
            \<and> move e = (if m1 \<noteq> MOVE_NONE then m1
                         else case retrieve tt A of Inr (Some old) \<Rightarrow> move old | _ \<Rightarrow> MOVE_NONE)"
    by (intro exI [of _ tt1] exI [of _ ?e]) simp
  moreover have "\<forall>e. retrieve tt A = Inr (Some e) \<longrightarrow> store tt A v VALUE_TYPE_EVAL d m = Inr tt"
    using eval [OF inv] by blast
  ultimately show ?thesis by blast
qed

theorem store_eval_keeps_entry_witness:
  "reachable ext_ex table_one \<and> (5 :: Key) \<noteq> 0
   \<and> retrieve table_one 5 = Inr (Some (TTEntry_new 5 100 VALUE_TYPE_EXACT 3 7 0))
   \<and> store table_one 5 200 VALUE_TYPE_EVAL 9 8 = Inr table_one
   \<and> (\<exists>tt1 e. store table_one 5 1 VALUE_TYPE_EXACT 3 MOVE_NONE = Inr tt1
         \<and> store tt1 5 2 VALUE_TYPE_EVAL 9 8 = Inr tt1
         \<and> retrieve tt1 5 = Inr (Some e)
         \<and> val e = 1 \<and> vtype e = VALUE_TYPE_EXACT \<and> depth e = 3 \<and> move e = 7)"
proof -
  have nz: "(5 :: Key) \<noteq> 0" by simp
  note th = store_eval_keeps_entry [OF reachable_ex nz, of 200 9 8 1 MOVE_NONE 2 8]
  from th have "store table_one 5 200 VALUE_TYPE_EVAL 9 8 = Inr table_one"
    using retrieve_ex by blast
  moreover from th have "\<exists>tt1 e. store table_one 5 1 VALUE_TYPE_EXACT 3 MOVE_NONE = Inr tt1
         \<and> store tt1 5 2 VALUE_TYPE_EVAL 9 8 = Inr tt1
         \<and> retrieve tt1 5 = Inr (Some e)
         \<and> val e = 1 \<and> vtype e = VALUE_TYPE_EXACT \<and> depth e = 3 \<and> move e = 7"
    by (simp add: retrieve_ex) blast
  ultimately show ?thesis using reachable_ex nz retrieve_ex by (intro conjI)
qed

text \<open>
  C2 as stated fails in its scenario for \<open>m1 = MOVE_NONE\<close>: on the reachable table that
  holds signature 5 with move 7, \<open>store 5 1 VALUE_TYPE_EXACT 3 MOVE_NONE\<close> followed by
  \<open>store 5 2 VALUE_TYPE_EVAL 9 8\<close> leaves an entry that \<open>retrieve\<close> returns with move 7,
  not with MOVE_NONE.
\<close>

theorem store_scenario_keeps_old_move:
  "reachable ext_ex table_one
   \<and> store table_one 5 1 VALUE_TYPE_EXACT 3 MOVE_NONE = Inr table_two
   \<and> store table_two 5 2 VALUE_TYPE_EVAL 9 8 = Inr table_two
   \<and> retrieve table_two 5 = Inr (Some (TTEntry_new 5 1 VALUE_TYPE_EXACT 3 7 0))
   \<and> move (TTEntry_new 5 1 VALUE_TYPE_EXACT 3 7 0) \<noteq> MOVE_NONE"
  using reachable_ex store_again_ex store_eval_two_ex retrieve_two_ex
  by (simp add: MOVE_NONE_def)

text \<open>
  C3. In every reachable table, for a non-zero signature \<open>S\<close>, a \<open>store\<close> that is not the
  abort (bound type VALUE_TYPE_EVAL with an entry for \<open>S\<close> present) returns a table in which
  \<open>retrieve S\<close> finds an entry with signature \<open>S\<close> and the value, bound type and depth just
  stored, tagged with the current generation; its move is the stored move or, when that was
  MOVE_NONE, the move of the entry for \<open>S\<close> that was there before (MOVE_NONE if there was
  none).
\<close>

theorem store_then_retrieve:
  assumes "reachable ext tt" "S \<noteq> 0"
    and "\<not> (t = VALUE_TYPE_EVAL \<and> (\<exists>old. retrieve tt S = Inr (Some old)))"
  shows "\<exists>tt' e. store tt S v t d m = Inr tt' \<and> retrieve tt' S = Inr (Some e)
     \<and> key e = S \<and> val e = v \<and> vtype e = t \<and> depth e = d \<and> gen e = generation tt
     \<and> move e = (if m \<noteq> MOVE_NONE then m
                  else case retrieve tt S of Inr (Some old) \<Rightarrow> move old | _ \<Rightarrow> MOVE_NONE)"
proof -
  let ?e = "TTEntry_new S v t d
        (if m \<noteq> MOVE_NONE then m
         else case retrieve tt S of Inr (Some old) \<Rightarrow> move old | _ \<Rightarrow> MOVE_NONE)
        (generation tt)"
  from store_retrieve [OF reachable_tt_inv [OF assms(1)] assms(2,3), of v d m]
  obtain tt' where "store tt S v t d m = Inr tt'" and "retrieve tt' S = Inr (Some ?e)"
    by blast
  then show ?thesis by (intro exI [of _ tt'] exI [of _ ?e]) simp
qed

theorem store_then_retrieve_witness:
  "reachable ext_ex table_empty \<and> (5 :: Key) \<noteq> 0
   \<and> \<not> (VALUE_TYPE_EXACT = VALUE_TYPE_EVAL \<and> (\<exists>old. retrieve table_empty 5 = Inr (Some old)))
   \<and> (\<exists>tt' e. store table_empty 5 100 VALUE_TYPE_EXACT 3 7 = Inr tt'
         \<and> retrieve tt' 5 = Inr (Some e) \<and> val e = 100 \<and> depth e = 3 \<and> move e = 7)"
proof -
  have nz: "(5 :: Key) \<noteq> 0" by simp
  have na: "\<not> (VALUE_TYPE_EXACT = VALUE_TYPE_EVAL \<and> (\<exists>old. retrieve table_empty 5 = Inr (Some old)))"
    by simp
  from store_then_retrieve [OF reachable_empty_ex nz na, of 100 3 7]
  have "\<exists>tt' e. store table_empty 5 100 VALUE_TYPE_EXACT 3 7 = Inr tt'
         \<and> retrieve tt' 5 = Inr (Some e) \<and> val e = 100 \<and> depth e = 3 \<and> move e = 7"
    by (auto simp: MOVE_NONE_def)
  with reachable_empty_ex nz na show ?thesis by blast
qed

text \<open>
  C4. In every reachable table, for a non-zero signature \<open>S\<close> that \<open>retrieve\<close> finds, a
  \<open>store\<close> of \<open>S\<close> with a bound type other than VALUE_TYPE_EVAL and the move MOVE_NONE
  overwrites the slot of that entry, and nothing else, with the new value, bound type and
  depth and the current generation, and keeps the move the slot held.
\<close>

theorem store_no_move_keeps_move:
  assumes "reachable ext tt" "S \<noteq> 0" "retrieve tt S = Inr (Some old)"
    and "t \<noteq> VALUE_TYPE_EVAL"
  shows "\<exists>i<4. entries tt ! (cluster_of tt S + i) = old
     \<and> store tt S v t d MOVE_NONE =
         Inr (tt\<lparr>entries := (entries tt)[cluster_of tt S + i :=
            \<lparr>key = S, val = v, vtype = t, depth = d, move = move old, gen = generation tt\<rparr>]\<rparr>)
     \<and> retrieve (tt\<lparr>entries := (entries tt)[cluster_of tt S + i :=
            \<lparr>key = S, val = v, vtype = t, depth = d, move = move old, gen = generation tt\<rparr>]\<rparr>) S =
         Inr (Some \<lparr>key = S, val = v, vtype = t, depth = d, move = move old, gen = generation tt\<rparr>)"
proof -
  note inv = reachable_tt_inv [OF assms(1)]
  from store_existing [OF inv assms(2,3), of v t d MOVE_NONE] assms(4)
  obtain i where i: "i < 4" "entries tt ! (cluster_of tt S + i) = old"
    and st: "store tt S v t d MOVE_NONE =
         Inr (tt\<lparr>entries := (entries tt)[cluster_of tt S + i :=
            TTEntry_new S v t d (move old) (generation tt)]\<rparr>)"
    by auto
  have na: "\<not> (t = VALUE_TYPE_EVAL \<and> (\<exists>old. retrieve tt S = Inr (Some old)))"
    using assms(4) by simp
  from store_retrieve [OF inv assms(2) na, of v d MOVE_NONE] st assms(3)
  have "retrieve (tt\<lparr>entries := (entries tt)[cluster_of tt S + i :=
            TTEntry_new S v t d (move old) (generation tt)]\<rparr>) S =
         Inr (Some (TTEntry_new S v t d (move old) (generation tt)))"
    by simp
  with i st show ?thesis unfolding TTEntry_new_def by blast
qed

theorem store_no_move_keeps_move_witness:
  "reachable ext_ex table_one \<and> (5 :: Key) \<noteq> 0
   \<and> retrieve table_one 5 = Inr (Some (TTEntry_new 5 100 VALUE_TYPE_EXACT 3 7 0))
   \<and> VALUE_TYPE_LOWER \<noteq> VALUE_TYPE_EVAL
   \<and> (\<exists>i<4. store table_one 5 (- 20) VALUE_TYPE_LOWER 6 MOVE_NONE =
         Inr (table_one\<lparr>entries := (entries table_one)[4 + i :=
            \<lparr>key = 5, val = - 20, vtype = VALUE_TYPE_LOWER, depth = 6, move = 7, gen = 0\<rparr>]\<rparr>))"
proof -
  have nz: "(5 :: Key) \<noteq> 0" by simp
  have ty: "VALUE_TYPE_LOWER \<noteq> VALUE_TYPE_EVAL" by simp
  have g: "generation table_one = 0" by (simp add: table_one_def)
  from store_no_move_keeps_move [OF reachable_ex nz retrieve_ex ty, of "- 20" 6]
  have "\<exists>i<4. store table_one 5 (- 20) VALUE_TYPE_LOWER 6 MOVE_NONE =
         Inr (table_one\<lparr>entries := (entries table_one)[4 + i :=
            \<lparr>key = 5, val = - 20, vtype = VALUE_TYPE_LOWER, depth = 6, move = 7, gen = 0\<rparr>]\<rparr>)"
    unfolding cluster_of_ex g by (auto simp: TTEntry_new_def)
  with reachable_ex nz retrieve_ex ty show ?thesis by blast
qed

section \<open>Invariants of the reachable tables\<close>

text \<open>
  C6. In every reachable table (a cleared table after any sequence of \<open>store\<close> and
  \<open>insert_pv\<close> with non-zero signatures and of \<open>new_search\<close>), a \<open>store\<close> of a
  non-zero signature \<open>S\<close> returns a table in which at most one of the four slots of the
  cluster of \<open>S\<close> holds \<open>S\<close>.
\<close>

theorem store_unique_signature:
  assumes "reachable ext tt" "S \<noteq> 0"
  shows "\<exists>tt'. store tt S v t d m = Inr tt'
     \<and> length (filter (\<lambda>i. key (entries tt' ! (cluster_of tt' S + i)) = S) [0..<4]) \<le> 1"
proof -
  note inv = reachable_tt_inv [OF assms(1)]
  from store_total [OF tt_inv_cluster(1) [OF inv], of S v t d m]
  obtain tt' where st: "store tt S v t d m = Inr tt'" by blast
  have inv': "tt_inv tt'" using inv assms(2) st by (rule store_tt_inv)
  note ci = tt_inv_cluster(2) [OF inv', of S]
  have "length (filter (\<lambda>i. key (entries tt' ! (cluster_of tt' S + i)) = S) [0..<4]) \<le> 1"
  proof (rule at_most_one_match)
    fix i j :: nat
    assume "i < 4" "j < 4" "i \<noteq> j" and k: "key (entries tt' ! (cluster_of tt' S + i)) = S"
    with cluster_inv_distinct [OF ci, of i j] assms(2)
    show "key (entries tt' ! (cluster_of tt' S + j)) \<noteq> S" by auto
  qed
  with st show ?thesis by blast
qed

theorem store_unique_signature_witness:
  "reachable ext_ex table_one \<and> (5 :: Key) \<noteq> 0
   \<and> (\<exists>tt'. store table_one 5 (- 20) VALUE_TYPE_LOWER 6 MOVE_NONE = Inr tt'
        \<and> length (filter (\<lambda>i. key (entries tt' ! (cluster_of tt' 5 + i)) = 5) [0..<4]) \<le> 1)"
proof -
  have nz: "(5 :: Key) \<noteq> 0" by simp
  from store_unique_signature [OF reachable_ex nz, of "- 20" VALUE_TYPE_LOWER 6 MOVE_NONE]
    reachable_ex nz
  show ?thesis by blast
qed

text \<open>
  C10. In every reachable table the occupied slots (signature other than 0) of each cluster
  come before its empty slots. A \<open>store\<close> or an \<open>insert_pv\<close> with non-zero signatures
  leaves every occupied slot occupied, and \<open>new_search\<close> does not touch the entries; so
  the scan of \<open>store\<close>, which stops at the first empty or matching slot, never leaves an
  occupied slot behind an empty one.
\<close>

theorem occupied_slots_form_prefix:
  assumes "reachable ext tt"
  shows "(\<forall>c<unat (size_tt tt). \<forall>i<4. \<forall>j<4.
            i < j \<longrightarrow> key (entries tt ! (4 * c + i)) = 0 \<longrightarrow> key (entries tt ! (4 * c + j)) = 0)
     \<and> (\<forall>S v t d m tt'. S \<noteq> 0 \<longrightarrow> store tt S v t d m = Inr tt' \<longrightarrow>
            (\<forall>i<length (entries tt). key (entries tt ! i) \<noteq> 0 \<longrightarrow> key (entries tt' ! i) \<noteq> 0))
     \<and> (\<forall>p pv tt'. 0 \<notin> set (pv_keys ext p pv) \<longrightarrow> insert_pv ext tt p pv = Inr tt' \<longrightarrow>
            (\<forall>i<length (entries tt). key (entries tt ! i) \<noteq> 0 \<longrightarrow> key (entries tt' ! i) \<noteq> 0))
     \<and> entries (new_search tt) = entries tt"
proof -
  note inv = reachable_tt_inv [OF assms]
  note ok = tt_inv_cluster(1) [OF inv]
  have "\<forall>c<unat (size_tt tt). \<forall>i<4. \<forall>j<4.
            i < j \<longrightarrow> key (entries tt ! (4 * c + i)) = 0 \<longrightarrow> key (entries tt ! (4 * c + j)) = 0"
  proof (intro allI impI)
    fix c i j :: nat
    assume a: "c < unat (size_tt tt)" "i < 4" "j < 4" "i < j" "key (entries tt ! (4 * c + i)) = 0"
    from a(1) have "cluster_inv (entries tt) (4 * c)" using inv by (simp add: tt_inv_def)
    from this a(2,5,4,3) show "key (entries tt ! (4 * c + j)) = 0" by (rule cluster_inv_after)
  qed
  moreover have "\<forall>S v t d m tt'. S \<noteq> 0 \<longrightarrow> store tt S v t d m = Inr tt' \<longrightarrow>
            (\<forall>i<length (entries tt). key (entries tt ! i) \<noteq> 0 \<longrightarrow> key (entries tt' ! i) \<noteq> 0)"
  proof (intro allI impI)
    fix S v t d m tt' i
    assume "S \<noteq> 0" "store tt S v t d m = Inr tt'" "i < length (entries tt)"
      "key (entries tt ! i) \<noteq> 0"
    with ok show "key (entries tt' ! i) \<noteq> 0" by (rule store_keeps_occupied)
  qed
  moreover have "\<forall>p pv tt'. 0 \<notin> set (pv_keys ext p pv) \<longrightarrow> insert_pv ext tt p pv = Inr tt' \<longrightarrow>
            (\<forall>i<length (entries tt). key (entries tt ! i) \<noteq> 0 \<longrightarrow> key (entries tt' ! i) \<noteq> 0)"
  proof (intro allI impI)
    fix p pv tt' i
    assume "0 \<notin> set (pv_keys ext p pv)" "insert_pv ext tt p pv = Inr tt'" "i < length (entries tt)"
      "key (entries tt ! i) \<noteq> 0"
    with ok show "key (entries tt' ! i) \<noteq> 0" by (rule insert_pv_keeps_occupied)
  qed
  moreover have "entries (new_search tt) = entries tt" by (simp add: new_search_def)
  ultimately show ?thesis by (intro conjI)
qed

theorem occupied_slots_form_prefix_witness:
  "reachable ext_ex table_one
   \<and> key (entries table_one ! 4) = 5
   \<and> key (entries table_one ! (4 * 1 + 1)) = 0
   \<and> key (entries table_one ! (4 * 1 + 2)) = 0"
proof -
  have a: "key (entries table_one ! 4) = 5" "key (entries table_one ! (4 * 1 + 1)) = 0"
    by (simp_all add: table_one_def TTEntry_zero_def)
  have c: "(1::nat) < unat (size_tt table_one)" by (simp add: table_one_def)
  note p = occupied_slots_form_prefix [OF reachable_ex, THEN conjunct1, rule_format, of 1 1 2]
  have "key (entries table_one ! (4 * 1 + 2)) = 0"
    by (rule p) (use a c in simp_all)
  with a reachable_ex show ?thesis by simp
qed

section \<open>Principal variation\<close>

text \<open>
  C9. For a move array that holds MOVE_NONE, \<open>insert_pv\<close> is the sequence of the stores,
  one for each move before the first MOVE_NONE and in their order, at the signature of the
  position reached by the moves before it, with value VALUE_NONE, bound type VALUE_TYPE_NONE,
  depth \<open>- 127 * OnePly\<close> and that move. So in a reachable table that holds an entry for the
  non-zero signature of the starting position, \<open>insert_pv\<close> with one move overwrites the
  slot of that entry, whatever its value, bound type and depth, with this placeholder.
\<close>

theorem insert_pv_stores_placeholders:
  "(MOVE_NONE \<in> set pv \<longrightarrow>
      insert_pv ext tt p pv =
        store_all ext tt (zip (pv_keys ext p pv) (takeWhile (\<lambda>mv. mv \<noteq> MOVE_NONE) pv))
      \<and> length (pv_keys ext p pv) = length (takeWhile (\<lambda>mv. mv \<noteq> MOVE_NONE) pv))
   \<and> (reachable ext tt \<longrightarrow> get_key ext p \<noteq> 0 \<longrightarrow> mv \<noteq> MOVE_NONE \<longrightarrow>
        retrieve tt (get_key ext p) = Inr (Some old) \<longrightarrow>
        (\<exists>i<4. entries tt ! (cluster_of tt (get_key ext p) + i) = old
          \<and> insert_pv ext tt p (mv # MOVE_NONE # rest) =
              Inr (tt\<lparr>entries := (entries tt)[cluster_of tt (get_key ext p) + i :=
                \<lparr>key = get_key ext p, val = VALUE_NONE ext, vtype = VALUE_TYPE_NONE,
                 depth = - 127 * OnePly ext, move = mv, gen = generation tt\<rparr>]\<rparr>)))"
proof (intro conjI impI)
  assume "MOVE_NONE \<in> set pv"
  from insert_pv_store_all [OF this, of ext tt p]
  show "insert_pv ext tt p pv =
        store_all ext tt (zip (pv_keys ext p pv) (takeWhile (\<lambda>mv. mv \<noteq> MOVE_NONE) pv))"
    and "length (pv_keys ext p pv) = length (takeWhile (\<lambda>mv. mv \<noteq> MOVE_NONE) pv)"
    by simp_all
next
  assume r: "reachable ext tt" and nz: "get_key ext p \<noteq> 0" and mv: "mv \<noteq> MOVE_NONE"
    and old: "retrieve tt (get_key ext p) = Inr (Some old)"
  from store_existing [OF reachable_tt_inv [OF r] nz old,
      of "VALUE_NONE ext" VALUE_TYPE_NONE "- 127 * OnePly ext" mv] mv
  obtain i where "i < 4" "entries tt ! (cluster_of tt (get_key ext p) + i) = old"
    and "store tt (get_key ext p) (VALUE_NONE ext) VALUE_TYPE_NONE (- 127 * OnePly ext) mv =
      Inr (tt\<lparr>entries := (entries tt)[cluster_of tt (get_key ext p) + i :=
          TTEntry_new (get_key ext p) (VALUE_NONE ext) VALUE_TYPE_NONE (- 127 * OnePly ext) mv
            (generation tt)]\<rparr>)"
    by auto
  then show "\<exists>i<4. entries tt ! (cluster_of tt (get_key ext p) + i) = old
          \<and> insert_pv ext tt p (mv # MOVE_NONE # rest) =
              Inr (tt\<lparr>entries := (entries tt)[cluster_of tt (get_key ext p) + i :=
                \<lparr>key = get_key ext p, val = VALUE_NONE ext, vtype = VALUE_TYPE_NONE,
                 depth = - 127 * OnePly ext, move = mv, gen = generation tt\<rparr>]\<rparr>)"
    using mv by (intro exI [of _ i]) (simp add: TTEntry_new_def)
qed

theorem insert_pv_stores_placeholders_witness:
  "MOVE_NONE \<in> set [9, MOVE_NONE] \<and> reachable ext_ex table_one \<and> get_key ext_ex 5 \<noteq> 0
   \<and> (9 :: Move) \<noteq> MOVE_NONE
   \<and> retrieve table_one (get_key ext_ex 5) = Inr (Some (TTEntry_new 5 100 VALUE_TYPE_EXACT 3 7 0))
   \<and> insert_pv ext_ex table_one 5 [9, MOVE_NONE] =
        store_all ext_ex table_one [(5, 9)]
   \<and> (\<exists>i<4. insert_pv ext_ex table_one 5 [9, MOVE_NONE] =
        Inr (table_one\<lparr>entries := (entries table_one)[4 + i :=
           \<lparr>key = 5, val = 32002, vtype = VALUE_TYPE_NONE, depth = - 254, move = 9, gen = 0\<rparr>]\<rparr>))"
proof -
  have k: "get_key ext_ex 5 = 5" by (simp add: ext_ex_def)
  have m: "MOVE_NONE \<in> set [9, MOVE_NONE]" and nz: "get_key ext_ex 5 \<noteq> 0"
    and mv: "(9 :: Move) \<noteq> MOVE_NONE"
    by (simp_all add: k MOVE_NONE_def)
  have re: "retrieve table_one (get_key ext_ex 5) = Inr (Some (TTEntry_new 5 100 VALUE_TYPE_EXACT 3 7 0))"
    using retrieve_ex by (simp add: k)
  note th = insert_pv_stores_placeholders [of "[9, MOVE_NONE]" ext_ex table_one 5 9
      "TTEntry_new 5 100 VALUE_TYPE_EXACT 3 7 0" "[]"]
  from th m have "insert_pv ext_ex table_one 5 [9, MOVE_NONE] =
        store_all ext_ex table_one (zip (pv_keys ext_ex 5 [9, MOVE_NONE])
           (takeWhile (\<lambda>mv. mv \<noteq> MOVE_NONE) [9, MOVE_NONE]))"
    by blast
  then have a: "insert_pv ext_ex table_one 5 [9, MOVE_NONE] = store_all ext_ex table_one [(5, 9)]"
    using mv by (simp add: k)
  from th reachable_ex nz mv re
  have "\<exists>i<4. insert_pv ext_ex table_one 5 [9, MOVE_NONE] =
              Inr (table_one\<lparr>entries := (entries table_one)[cluster_of table_one (get_key ext_ex 5) + i :=
                \<lparr>key = get_key ext_ex 5, val = VALUE_NONE ext_ex, vtype = VALUE_TYPE_NONE,
                 depth = - 127 * OnePly ext_ex, move = 9, gen = generation table_one\<rparr>]\<rparr>)"
    by blast
  then have b: "\<exists>i<4. insert_pv ext_ex table_one 5 [9, MOVE_NONE] =
        Inr (table_one\<lparr>entries := (entries table_one)[4 + i :=
           \<lparr>key = 5, val = 32002, vtype = VALUE_TYPE_NONE, depth = - 254, move = 9, gen = 0\<rparr>]\<rparr>)"
    unfolding k cluster_of_ex by (simp add: ext_ex_def table_one_def)
  from m reachable_ex nz mv re a b show ?thesis by (intro conjI)
qed

section \<open>Sizing\<close>

text \<open>
  C5, in the form that holds of the code. For a size of 4 to 4095 megabytes, an entry size \<open>sz\<close> of 2 to 1024
  bytes, a successful allocation and a table whose array has four entries for each cluster,
  \<open>set_size\<close> returns a table with \<open>2 ^ k\<close> clusters and \<open>4 * 2 ^ k\<close> entries, where
  \<open>2 ^ k\<close> is the largest power of two, at least 1024, with \<open>2 ^ k * 4 * sz\<close> bytes within
  the budget. If that count differs from the size the table had, \<open>retrieve\<close> finds no
  non-zero signature afterwards; if it equals the size the table had, the table is returned
  as it was, contents included.
\<close>

theorem set_size_capacity:
  assumes "4 \<le> unat mbSize" "unat mbSize \<le> 4095" "2 \<le> unat sz" "unat sz \<le> 1024"
    and "length (entries tt) = 4 * unat (size_tt tt)"
  shows "\<exists>k tt'. set_size sz True tt mbSize = Some (Inr tt')
     \<and> size_tt tt' = 2 ^ k \<and> unat (size_tt tt') = 2 ^ k \<and> 10 \<le> k
     \<and> 2 ^ k * 4 * unat sz \<le> unat mbSize * 2 ^ 20
     \<and> (\<forall>j. 2 ^ j * 4 * unat sz \<le> unat mbSize * 2 ^ 20 \<longrightarrow> j \<le> k)
     \<and> length (entries tt') = 4 * 2 ^ k
     \<and> (size_tt tt \<noteq> 2 ^ k \<longrightarrow> (\<forall>S. S \<noteq> 0 \<longrightarrow> retrieve tt' S = Inr None))
     \<and> (size_tt tt = 2 ^ k \<longrightarrow> tt' = tt)"
proof -
  let ?M = "unat mbSize * 2 ^ 20"
  have mb: "unat mbSize < 4096" using assms(2) by simp
  have M: "?M < 2 ^ 32"
  proof -
    have "?M < 4096 * 2 ^ 20" using mb by simp
    then show ?thesis by simp
  qed
  have "1024 * 4 * unat sz \<le> 1024 * 4 * 1024" using assms(4) by simp
  also have "\<dots> \<le> 4 * 2 ^ 20" by simp
  also have "\<dots> \<le> ?M" using assms(1) by simp
  finally have fits0: "unat (1024 :: 32 word) * 4 * unat sz \<le> ?M" by simp
  from set_size_loop_result [OF mb assms(3,4) fits0] obtain j where
    loop: "set_size_loop sz mbSize 1024 = Some (1024 * 2 ^ j)"
    and un: "unat (1024 * 2 ^ j :: 32 word) = 1024 * 2 ^ j"
    and fits: "1024 * 2 ^ j * 4 * unat sz \<le> ?M"
    and nfits: "\<not> 1024 * 2 ^ j * 8 * unat sz \<le> ?M"
    by auto
  define k where "k = 10 + j"
  define n :: "32 word" where "n = 2 ^ k"
  have p: "(1024::nat) * 2 ^ j = 2 ^ k" by (simp add: k_def power_add)
  have nw: "(1024 :: 32 word) * 2 ^ j = n" by (simp add: n_def k_def power_add)
  have un': "unat n = 2 ^ k" using un by (simp only: nw p)
  have fits': "2 ^ k * 4 * unat sz \<le> ?M" using fits by (simp only: p)
  have nfits': "\<not> 2 ^ Suc k * 4 * unat sz \<le> ?M"
    using nfits by (simp add: p [symmetric] mult.commute mult.left_commute)
  have largest: "\<forall>j. 2 ^ j * 4 * unat sz \<le> ?M \<longrightarrow> j \<le> k"
    using pow2_fits_mono [OF nfits'] by blast
  have "(2::nat) ^ k * 8 \<le> 2 ^ k * 4 * unat sz" using assms(3) by simp
  with fits' M have small: "(2::nat) ^ k * 8 < 2 ^ 32" by linarith
  then have k29: "(2::nat) ^ k \<le> 2 ^ 29" by simp
  have n4: "unat (n * 4) = 4 * 2 ^ k"
    using small by (simp add: unat_word_ariths un')
  have asrt: "4 \<le> mbSize \<and> mbSize \<le> 4096"
    using assms(1,2) by (simp add: word_le_nat_alt)
  have k10: "10 \<le> k" by (simp add: k_def)
  show ?thesis
  proof (cases "size_tt tt = n")
    case True
    have c1: "set_size sz True tt mbSize = Some (Inr tt)"
      using asrt True by (simp add: set_size_def loop nw)
    have c2: "size_tt tt = 2 ^ k" using True by (simp add: n_def)
    have c3: "unat (size_tt tt) = 2 ^ k" using True un' by simp
    have c7: "length (entries tt) = 4 * 2 ^ k" using assms(5) c3 by simp
    have c8: "size_tt tt \<noteq> 2 ^ k \<longrightarrow> (\<forall>S. S \<noteq> 0 \<longrightarrow> retrieve tt S = Inr None)"
      using c2 by simp
    have c9: "size_tt tt = 2 ^ k \<longrightarrow> tt = tt" by simp
    show ?thesis
      by (intro exI [of _ k] exI [of _ tt] conjI c1 c2 c3 k10 fits' largest c7 c8 c9)
  next
    case False
    let ?t1 = "tt\<lparr>size_tt := n, entries := replicate (4 * 2 ^ k) TTEntry_zero\<rparr>"
    have nz: "n \<noteq> 0"
    proof
      assume "n = 0"
      then have "unat n = 0" by simp
      with un' show False by simp
    qed
    have ok1: "tt_ok ?t1" using un' k29 nz by (simp add: tt_ok_def)
    have cl: "clear ?t1 = Inr ?t1"
      using clear_result [OF ok1] un' by simp
    have c1: "set_size sz True tt mbSize = Some (Inr ?t1)"
      using asrt False by (simp add: set_size_def loop nw n4 cl)
    have c2: "size_tt ?t1 = 2 ^ k" by (simp add: n_def)
    have c3: "unat (size_tt ?t1) = 2 ^ k" using un' by simp
    have c7: "length (entries ?t1) = 4 * 2 ^ k" by simp
    have c8: "size_tt tt \<noteq> 2 ^ k \<longrightarrow> (\<forall>S. S \<noteq> 0 \<longrightarrow> retrieve ?t1 S = Inr None)"
    proof (intro allI impI)
      fix S :: Key assume "S \<noteq> 0"
      have "entries ?t1 = replicate (4 * unat (size_tt ?t1)) TTEntry_zero" by (simp add: un')
      with ok1 show "retrieve ?t1 S = Inr None" using \<open>S \<noteq> 0\<close> by (rule retrieve_cleared)
    qed
    have c9: "size_tt tt = 2 ^ k \<longrightarrow> ?t1 = tt" using False by (simp add: n_def)
    show ?thesis
      by (intro exI [of _ k] exI [of _ ?t1] conjI c1 c2 c3 k10 fits' largest c7 c8 c9)
  qed
qed

theorem set_size_capacity_witness:
  "4 \<le> unat (4 :: 32 word) \<and> unat (4 :: 32 word) \<le> 4095
   \<and> 2 \<le> unat (16 :: 64 word) \<and> unat (16 :: 64 word) \<le> 1024
   \<and> length (entries TranspositionTable_new) = 4 * unat (size_tt TranspositionTable_new)
   \<and> (\<exists>k tt'. set_size 16 True TranspositionTable_new 4 = Some (Inr tt')
         \<and> size_tt tt' = 2 ^ k \<and> 10 \<le> k \<and> 2 ^ k * 4 * unat (16 :: 64 word) \<le> unat (4 :: 32 word) * 2 ^ 20
         \<and> length (entries tt') = 4 * 2 ^ k)"
proof -
  have h: "4 \<le> unat (4 :: 32 word)" "unat (4 :: 32 word) \<le> 4095"
    "2 \<le> unat (16 :: 64 word)" "unat (16 :: 64 word) \<le> 1024"
    "length (entries TranspositionTable_new) = 4 * unat (size_tt TranspositionTable_new)"
    by (simp_all add: TranspositionTable_new_def)
  from set_size_capacity [OF h]
  have "\<exists>k tt'. set_size 16 True TranspositionTable_new 4 = Some (Inr tt')
         \<and> size_tt tt' = 2 ^ k \<and> 10 \<le> k \<and> 2 ^ k * 4 * unat (16 :: 64 word) \<le> unat (4 :: 32 word) * 2 ^ 20
         \<and> length (entries tt') = 4 * 2 ^ k"
    by blast
  with h show ?thesis by (intro conjI)
qed

text \<open>
  C5 as stated fails where the computed cluster count equals the size the table has: the
  4-megabyte table that holds an entry for signature 1 comes back from \<open>set_size\<close> with 4
  megabytes unchanged, and \<open>retrieve\<close> still finds the entry.
\<close>

theorem set_size_same_size_keeps_content:
  "set_size 16 True TranspositionTable_new 4 = Some (Inr table_4mb_empty)
   \<and> store table_4mb_empty 1 10 VALUE_TYPE_EXACT 3 7 = Inr table_4mb
   \<and> set_size 16 True table_4mb 4 = Some (Inr table_4mb)
   \<and> (1 :: Key) \<noteq> 0
   \<and> retrieve table_4mb 1 = Inr (Some (TTEntry_new 1 10 VALUE_TYPE_EXACT 3 7 0))
   \<and> retrieve table_4mb 1 \<noteq> Inr None"
  using set_size_new_4mb store_4mb set_size_same_4mb retrieve_4mb by simp

end
